theory Spec2Isabelle
  imports Complex_Main "HOL-Library.Sublist"
begin

section \<open>JavaScript strings\<close>

text \<open>
  The verification script for all archived articles (\<^verbatim>\<open>scripts/verify.mjs\<close>) and its
  single-article predecessor (\<^verbatim>\<open>scripts/verify-article-playwright.mjs\<close>) work on
  JavaScript strings. Such a string is a finite sequence of UTF-16 code units, and
  \<^verbatim>\<open>length\<close>, \<^verbatim>\<open>substring\<close>, \<^verbatim>\<open>includes\<close> and the regular expressions (none has the
  \<^verbatim>\<open>u\<close> flag) all count and compare code units. A code unit is written here by its number.

  The definitions below follow \<^verbatim>\<open>scripts/verify.mjs\<close>. The single-article script has the
  same checks with the same thresholds; its \<^verbatim>\<open>normalizeText\<close> replaces the arrow U+2192 only,
  its figure pattern knows the English word only and is case-sensitive, and it always
  expects 13 figures.
\<close>

type_synonym jschar = nat
type_synonym jsstring = "jschar list"

definition lit :: "string \<Rightarrow> jsstring" where
  \<comment> \<open>An ASCII literal of the source, as code units.\<close>
  "lit s = map of_char s"

definition backslash :: jschar where
  "backslash = 0x5C"

definition isSpace :: "jschar \<Rightarrow> bool" where
  \<comment> \<open>The class \<^verbatim>\<open>\s\<close> of a regular expression, which is also what \<^verbatim>\<open>trim()\<close> strips:
      WhiteSpace and LineTerminator of ECMAScript.\<close>
  "isSpace c \<longleftrightarrow>
     c \<in> {0x09, 0x0A, 0x0B, 0x0C, 0x0D, 0x20, 0xA0, 0x1680, 0x2028, 0x2029, 0x202F,
          0x205F, 0x3000, 0xFEFF}
     \<or> (0x2000 \<le> c \<and> c \<le> 0x200A)"

definition isDigit :: "jschar \<Rightarrow> bool" where
  \<comment> \<open>The class \<^verbatim>\<open>\d\<close>.\<close>
  "isDigit c \<longleftrightarrow> 0x30 \<le> c \<and> c \<le> 0x39"

definition isLineTerminator :: "jschar \<Rightarrow> bool" where
  \<comment> \<open>What \<^verbatim>\<open>.\<close> does not match.\<close>
  "isLineTerminator c \<longleftrightarrow> c \<in> {0x0A, 0x0D, 0x2028, 0x2029}"

definition trim :: "jsstring \<Rightarrow> jsstring" where
  "trim s = rev (dropWhile isSpace (rev (dropWhile isSpace s)))"

definition lowerUnit :: "jschar \<Rightarrow> jsstring" where
  \<comment> \<open>\<^verbatim>\<open>toLowerCase\<close> belongs to the runtime, not to the repository. Its mapping is given
      for the scripts of the archived articles (Basic Latin, Latin-1 Supplement, Cyrillic
      U+0400 to U+042F) and for U+0130, the one unit whose lower case is two units long;
      every other unit is left as it is. The runtime lowers 1068 further units of the
      Basic Multilingual Plane (Unicode 14), maps pairs of surrogates, and writes a final
      sigma by its context. The length of the output is the runtime's at every unit; the
      letters are the runtime's on the scripts named.\<close>
  "lowerUnit c =
     (if 0x41 \<le> c \<and> c \<le> 0x5A then [c + 0x20]
      else if 0xC0 \<le> c \<and> c \<le> 0xDE \<and> c \<noteq> 0xD7 then [c + 0x20]
      else if c = 0x130 then [0x69, 0x307]
      else if 0x400 \<le> c \<and> c \<le> 0x40F then [c + 0x50]
      else if 0x410 \<le> c \<and> c \<le> 0x42F then [c + 0x20]
      else [c])"

definition toLowerCase :: "jsstring \<Rightarrow> jsstring" where
  "toLowerCase s = concat (map lowerUnit s)"

definition canonicalize :: "jschar \<Rightarrow> jschar" where
  \<comment> \<open>Canonicalize of a regular expression with the \<^verbatim>\<open>i\<close> flag is the runtime's upper
      case of one unit, where a unit outside Basic Latin is never taken to one inside. It
      is given here for every unit that the runtime takes to a character of the patterns:
      the letters a-z, the Cyrillic letters U+0430 to U+044F, and U+1C82 and U+1C83, whose
      upper cases are U+041E and U+0421 (Unicode 14). The other units stay as they are;
      the runtime takes none of them to a character of the patterns.\<close>
  "canonicalize c =
     (if 0x61 \<le> c \<and> c \<le> 0x7A then c - 0x20
      else if 0x430 \<le> c \<and> c \<le> 0x44F then c - 0x20
      else if c = 0x1C82 then 0x41E
      else if c = 0x1C83 then 0x421
      else c)"

definition sameUnit :: "bool \<Rightarrow> jschar \<Rightarrow> jschar \<Rightarrow> bool" where
  \<comment> \<open>Comparison of a pattern character with an input unit; the flag is the \<^verbatim>\<open>i\<close> flag.\<close>
  "sameUnit ci p c \<longleftrightarrow> (if ci then canonicalize p = canonicalize c else p = c)"

fun startsWith :: "bool \<Rightarrow> jsstring \<Rightarrow> jsstring \<Rightarrow> bool" where
  \<comment> \<open>\<open>startsWith ci pat s\<close>: the literal \<open>pat\<close> matches at the start of \<open>s\<close>.\<close>
  "startsWith ci [] s = True"
| "startsWith ci (p # ps) [] = False"
| "startsWith ci (p # ps) (c # cs) = (sameUnit ci p c \<and> startsWith ci ps cs)"

fun str_includes :: "jsstring \<Rightarrow> jsstring \<Rightarrow> bool" where
  \<comment> \<open>\<^verbatim>\<open>hay.includes(needle)\<close>.\<close>
  "str_includes [] needle = (needle = [])"
| "str_includes (h # hs) needle = (startsWith False needle (h # hs) \<or> str_includes hs needle)"

fun split :: "jschar \<Rightarrow> jsstring \<Rightarrow> jsstring list" where
  \<comment> \<open>\<^verbatim>\<open>s.split(sep)\<close> for a separator of one unit: the empty string gives one empty
      piece, and adjacent separators give empty pieces.\<close>
  "split sep [] = [[]]"
| "split sep (c # cs) =
     (if c = sep then [] # split sep cs
      else (case split sep cs of [] \<Rightarrow> [[c]] | w # ws \<Rightarrow> (c # w) # ws))"

definition substring :: "jsstring \<Rightarrow> nat \<Rightarrow> jsstring" where
  \<comment> \<open>\<^verbatim>\<open>s.substring(0, n)\<close>.\<close>
  "substring s n = take n s"

subsection \<open>Global replacement\<close>

fun collapseFrom :: "bool \<Rightarrow> jsstring \<Rightarrow> jsstring" where
  \<comment> \<open>\<^verbatim>\<open>.replace(/\s+/g, ' ')\<close>: every maximal run of \<^verbatim>\<open>\s\<close> becomes one space. The flag says
      that the unit before was part of a run whose space is already written.\<close>
  "collapseFrom inRun [] = []"
| "collapseFrom inRun (c # cs) =
     (if isSpace c then (if inRun then collapseFrom True cs else 0x20 # collapseFrom True cs)
      else c # collapseFrom False cs)"

definition collapseSpaces :: "jsstring \<Rightarrow> jsstring" where
  "collapseSpaces s = collapseFrom False s"

definition replaceClass :: "(jschar \<Rightarrow> bool) \<Rightarrow> jsstring \<Rightarrow> jsstring \<Rightarrow> jsstring" where
  \<comment> \<open>\<^verbatim>\<open>.replace(/[...]/g, rep)\<close>: every unit of the class is replaced.\<close>
  "replaceClass cls rep s = concat (map (\<lambda>c. if cls c then rep else [c]) s)"

fun replaceAll :: "bool \<Rightarrow> jsstring \<Rightarrow> jsstring \<Rightarrow> jsstring \<Rightarrow> jsstring" where
  \<comment> \<open>\<^verbatim>\<open>.replace(/pat/g, rep)\<close> for a literal, non-empty pattern: the matches are taken from
      left to right and do not overlap; the replacement is not scanned again.\<close>
  "replaceAll ci [] rep s = s"
| "replaceAll ci (p # ps) rep [] = []"
| "replaceAll ci (p # ps) rep (c # cs) =
     (if startsWith ci (p # ps) (c # cs)
      then rep @ replaceAll ci (p # ps) rep (drop (length ps) cs)
      else c # replaceAll ci (p # ps) rep cs)"

section \<open>Normalization\<close>

text \<open>
  \<^verbatim>\<open>normalizeText\<close> of \<^verbatim>\<open>scripts/verify.mjs\<close>, one line of the definition for each call of
  the chain, in its order. The two quote replacements are written in the source with the
  ASCII apostrophe and the ASCII double quote on both sides.
\<close>

definition normalizeText :: "jsstring \<Rightarrow> jsstring" where
  "normalizeText text0 =
     (let t = trim text0;
          t = collapseSpaces t;
          t = replaceClass (\<lambda>c. (0x2000 \<le> c \<and> c \<le> 0x200F) \<or> (0x2028 \<le> c \<and> c \<le> 0x202F)) [0x20] t;
          t = replaceClass (\<lambda>c. c = 0xA0) [0x20] t;
          t = replaceClass (\<lambda>c. c = 0x27) [0x27] t;
          t = replaceClass (\<lambda>c. c = 0x22) [0x22] t;
          t = replaceClass (\<lambda>c. c = 0xD7) (lit ''x'') t;
          t = replaceAll False (backslash # lit ''times'') (lit ''x'') t;
          t = replaceClass (\<lambda>c. c = 0x2192 \<or> c = 0x21A6) (lit ''->'') t;
          t = replaceAll False (backslash # lit ''to'') (lit ''->'') t;
          t = replaceClass (\<lambda>c. c = 0x2212) (lit ''-'') t;
          t = replaceAll False (lit ''$$'') [] t;
          t = replaceAll False (lit ''$'') [] t;
          t = replaceAll False (backslash # lit ''subseteq'') [0x2286] t;
          t = replaceAll True (backslash # lit ''mathbb{n}_0'') [0x2115, 0x2080] t;
          t = replaceAll False (backslash # lit ''in'') [0x2208] t;
          t = replaceAll False (backslash # lit ''emptyset'') [0x2205] t;
          t = replaceAll False (lit ''^2'') [0xB2] t;
          t = replaceAll False (lit ''^n'') [0x207F] t
      in toLowerCase t)"

text \<open>\<^verbatim>\<open>normalizeCode\<close>, the shorter chain used for code blocks.\<close>

definition normalizeCode :: "jsstring \<Rightarrow> jsstring" where
  "normalizeCode text0 =
     (let t = trim text0;
          t = collapseSpaces t;
          t = replaceClass (\<lambda>c. (0x2000 \<le> c \<and> c \<le> 0x200F) \<or> (0x2028 \<le> c \<and> c \<le> 0x202F)) [0x20] t;
          t = replaceClass (\<lambda>c. c = 0xA0) [0x20] t;
          t = replaceClass (\<lambda>c. c = 0xD7) (lit ''x'') t;
          t = replaceAll False (backslash # lit ''times'') (lit ''x'') t;
          t = replaceAll False (lit ''$$'') [] t;
          t = replaceAll False (lit ''$'') [] t
      in toLowerCase t)"

section \<open>The content of a page, the article and the report\<close>

record heading =
  level :: jsstring
  heading_text :: jsstring

record link =
  link_text :: jsstring
  href :: jsstring

text \<open>What \<^verbatim>\<open>extractWebPageContent\<close> returns.\<close>

record webContent =
  title :: jsstring
  headings :: "heading list"
  paragraphs :: "jsstring list"
  codeBlocks :: "jsstring list"
  formulas :: "jsstring list"
  listItems :: "jsstring list"
  links :: "link list"
  figures :: "nat list"

text \<open>
  An entry of \<^verbatim>\<open>ARTICLES\<close> in \<^verbatim>\<open>scripts/articles-config.mjs\<close>, with the two fields that
  \<^verbatim>\<open>verifyMarkdownContent\<close> reads. \<^verbatim>\<open>expectedFigures\<close> is absent from the entries without
  local images.
\<close>

record article =
  hasLocalImages :: bool
  expectedFigures :: "nat option"

record missing =
  missing_title :: bool
  missing_headings :: "jsstring list"
  missing_paragraphs :: "jsstring list"
  missing_codeBlocks :: "jsstring list"
  missing_formulas :: "jsstring list"
  missing_listItems :: "jsstring list"
  missing_images :: nat

text \<open>The counters and the \<^verbatim>\<open>missing\<close> object that the checks update one after another.\<close>

record checks =
  totalChecks :: nat
  passedChecks :: nat
  missing :: missing

record report = checks +
  passRate :: rat
  hasMissingContent :: bool
  success :: bool

definition counted :: "checks \<Rightarrow> checks" where
  \<comment> \<open>\<^verbatim>\<open>totalChecks++\<close>\<close>
  "counted st = st\<lparr>totalChecks := totalChecks st + 1\<rparr>"

definition passed :: "checks \<Rightarrow> checks" where
  \<comment> \<open>\<^verbatim>\<open>passedChecks++\<close>\<close>
  "passed st = st\<lparr>passedChecks := passedChecks st + 1\<rparr>"

section \<open>The checks of \<^verbatim>\<open>verifyMarkdownContent\<close>\<close>

text \<open>
  The two match rates are quotients of two counts, compared with the literals \<^verbatim>\<open>0.6\<close>
  and \<^verbatim>\<open>0.85\<close>. They are rational numbers here. The comparison of the doubles agrees
  with the comparison of the rationals as long as the denominator is below \<open>2^50\<close>: a
  quotient equal to the bound rounds to the double of the literal, and any other quotient
  is further from the bound than a double can round.
\<close>

subsection \<open>Title and headings\<close>

definition checkTitle :: "jsstring \<Rightarrow> webContent \<Rightarrow> checks \<Rightarrow> checks" where
  "checkTitle normalizedMarkdown wc st =
     (if title wc \<noteq> [] then
        (let st = counted st;
             normalizedTitle = normalizeText (title wc)
         in if str_includes normalizedMarkdown normalizedTitle then passed st
            else st\<lparr>missing := (missing st)\<lparr>missing_title := True\<rparr>\<rparr>)
      else st)"

definition headingFound :: "jsstring \<Rightarrow> heading \<Rightarrow> bool" where
  "headingFound normalizedMarkdown h =
     (let normalized = normalizeText (heading_text h)
      in str_includes normalizedMarkdown normalized)"

definition checkHeading :: "jsstring \<Rightarrow> heading \<Rightarrow> checks \<Rightarrow> checks" where
  "checkHeading normalizedMarkdown h st =
     (let st = counted st
      in if headingFound normalizedMarkdown h then passed st
         else st\<lparr>missing := (missing st)\<lparr>missing_headings :=
                missing_headings (missing st) @ [heading_text h]\<rparr>\<rparr>)"

subsection \<open>Paragraphs\<close>

definition paragraphsToCheck :: "jsstring list \<Rightarrow> jsstring list" where
  \<comment> \<open>\<^verbatim>\<open>[...paragraphs.slice(0, 5), ...paragraphs.slice(-5)]\<close>\<close>
  "paragraphsToCheck ps = take 5 ps @ drop (length ps - 5) ps"

definition qualifyingWords :: "jsstring \<Rightarrow> jsstring list" where
  \<comment> \<open>\<^verbatim>\<open>normalized.split(' ').filter(w => w.length > 2)\<close>\<close>
  "qualifyingWords normalized = filter (\<lambda>w. length w > 2) (split 0x20 normalized)"

definition matchingWords :: "jsstring \<Rightarrow> jsstring list \<Rightarrow> jsstring list" where
  "matchingWords normalizedMarkdown ws = filter (\<lambda>word. str_includes normalizedMarkdown word) ws"

definition wordMatchRate :: "jsstring \<Rightarrow> jsstring \<Rightarrow> rat" where
  \<comment> \<open>\<^verbatim>\<open>words.length > 0 ? matchingWords.length / words.length : 0\<close>\<close>
  "wordMatchRate normalizedMarkdown normalized =
     (let ws = qualifyingWords normalized;
          ms = matchingWords normalizedMarkdown ws
      in if length ws > 0 then of_nat (length ms) / of_nat (length ws) else 0)"

definition substringMatch :: "nat \<Rightarrow> nat \<Rightarrow> jsstring \<Rightarrow> jsstring \<Rightarrow> bool" where
  \<comment> \<open>\<^verbatim>\<open>normalized.length > lo && normalizedMarkdown.includes(normalized.substring(0,
      Math.min(hi, normalized.length)))\<close>, with 20 and 50 for a paragraph, 15 and 40 for a
      list item.\<close>
  "substringMatch lo hi normalizedMarkdown normalized \<longleftrightarrow>
     length normalized > lo \<and>
     str_includes normalizedMarkdown (substring normalized (min hi (length normalized)))"

definition paragraphFound :: "jsstring \<Rightarrow> jsstring \<Rightarrow> bool" where
  "paragraphFound normalizedMarkdown paragraph =
     (let normalized = normalizeText paragraph;
          matchRate = wordMatchRate normalizedMarkdown normalized
      in matchRate \<ge> 6 / 10 \<or> substringMatch 20 50 normalizedMarkdown normalized)"

definition checkParagraph :: "jsstring \<Rightarrow> jsstring \<Rightarrow> checks \<Rightarrow> checks" where
  "checkParagraph normalizedMarkdown paragraph st =
     (let st = counted st
      in if paragraphFound normalizedMarkdown paragraph then passed st
         else st\<lparr>missing := (missing st)\<lparr>missing_paragraphs :=
                missing_paragraphs (missing st) @ [substring paragraph 100 @ lit ''...'']\<rparr>\<rparr>)"

subsection \<open>Code blocks\<close>

definition onlyBrackets :: "jsstring \<Rightarrow> bool" where
  \<comment> \<open>\<^verbatim>\<open>/^[{}\[\](),;]+$/.test(l)\<close>\<close>
  "onlyBrackets l \<longleftrightarrow> l \<noteq> [] \<and> list_all (\<lambda>c. c \<in> set (lit ''{}[](),;'')) l"

definition significantLines :: "jsstring \<Rightarrow> jsstring list" where
  "significantLines code =
     filter (\<lambda>l. length l > 3 \<and> \<not> onlyBrackets l) (map trim (split 0x0A code))"

definition matchingLines :: "jsstring \<Rightarrow> jsstring list \<Rightarrow> jsstring list" where
  "matchingLines normalizedMarkdownForCode ls =
     filter (\<lambda>line. str_includes normalizedMarkdownForCode (normalizeCode line)) ls"

definition lineMatchRate :: "jsstring \<Rightarrow> jsstring \<Rightarrow> rat" where
  \<comment> \<open>\<^verbatim>\<open>lines.length > 0 ? matchingLines.length / lines.length : 1\<close>\<close>
  "lineMatchRate normalizedMarkdownForCode code =
     (let ls = significantLines code;
          ms = matchingLines normalizedMarkdownForCode ls
      in if length ls > 0 then of_nat (length ms) / of_nat (length ls) else 1)"

definition codeBlockFound :: "jsstring \<Rightarrow> jsstring \<Rightarrow> bool" where
  "codeBlockFound normalizedMarkdownForCode code =
     (let normalizedCode = normalizeCode code;
          matchRate = lineMatchRate normalizedMarkdownForCode code
      in matchRate \<ge> 6 / 10 \<or> str_includes normalizedMarkdownForCode normalizedCode)"

definition checkCodeBlock :: "jsstring \<Rightarrow> jsstring \<Rightarrow> checks \<Rightarrow> checks" where
  "checkCodeBlock normalizedMarkdownForCode code st =
     (let st = counted st
      in if codeBlockFound normalizedMarkdownForCode code then passed st
         else st\<lparr>missing := (missing st)\<lparr>missing_codeBlocks :=
                missing_codeBlocks (missing st) @ [substring code 100 @ lit ''...'']\<rparr>\<rparr>)"

subsection \<open>List items\<close>

definition listItemsToCheck :: "jsstring list \<Rightarrow> jsstring list" where
  \<comment> \<open>\<^verbatim>\<open>listItems.slice(0, 10)\<close>\<close>
  "listItemsToCheck items = take 10 items"

definition listItemFound :: "jsstring \<Rightarrow> jsstring \<Rightarrow> bool" where
  "listItemFound normalizedMarkdown item =
     (let normalized = normalizeText item;
          matchRate = wordMatchRate normalizedMarkdown normalized
      in matchRate \<ge> 6 / 10 \<or> substringMatch 15 40 normalizedMarkdown normalized)"

definition checkListItem :: "jsstring \<Rightarrow> jsstring \<Rightarrow> checks \<Rightarrow> checks" where
  "checkListItem normalizedMarkdown item st =
     (let st = counted st
      in if listItemFound normalizedMarkdown item then passed st
         else st\<lparr>missing := (missing st)\<lparr>missing_listItems :=
                missing_listItems (missing st) @ [substring item 100 @ lit ''...'']\<rparr>\<rparr>)"

subsection \<open>Images\<close>

text \<open>
  The two image patterns are matched by hand-written matchers. A matcher takes the input
  from the position where a match is tried and returns the rest of the input after the
  match. The greedy \<^verbatim>\<open>\s*\<close> and \<^verbatim>\<open>\d+\<close> need no backtracking, since what follows them in the
  pattern is outside their class; an alternative is tried only when the ones before it
  have failed together with everything after them.
\<close>

definition expect :: "bool \<Rightarrow> jsstring \<Rightarrow> jsstring \<Rightarrow> jsstring option" where
  \<comment> \<open>A literal piece of a pattern; the flag is the \<^verbatim>\<open>i\<close> flag.\<close>
  "expect ci pat s = (if startsWith ci pat s then Some (drop (length pat) s) else None)"

definition digits :: "jsstring \<Rightarrow> jsstring option" where
  \<comment> \<open>\<^verbatim>\<open>\d+\<close>\<close>
  "digits s =
     (case s of [] \<Rightarrow> None
      | c # cs \<Rightarrow> if isDigit c then Some (dropWhile isDigit cs) else None)"

definition orElse :: "'a option \<Rightarrow> 'a option \<Rightarrow> 'a option" where
  "orElse a b = (case a of Some r \<Rightarrow> Some r | None \<Rightarrow> b)"

definition figureTail :: "jsstring \<Rightarrow> jsstring option" where
  \<comment> \<open>\<^verbatim>\<open>\s*\d+\]\(images\/figure-\d+\.(png|jpg)\)\<close> with the \<^verbatim>\<open>i\<close> flag\<close>
  "figureTail s =
     Option.bind (digits (dropWhile isSpace s)) (\<lambda>s.
     Option.bind (expect True (lit ''](images/figure-'') s) (\<lambda>s.
     Option.bind (digits s) (\<lambda>s.
     Option.bind (expect True (lit ''.'') s) (\<lambda>s.
     orElse (Option.bind (expect True (lit ''png'') s) (expect True (lit '')'')))
            (Option.bind (expect True (lit ''jpg'') s) (expect True (lit '')'')))))))"

definition figurePattern :: "jsstring \<Rightarrow> jsstring option" where
  \<comment> \<open>\<^verbatim>\<open>/!\[(?:Figure|Ris\.?|Risunok)\s*\d+\]\(images\/figure-\d+\.(png|jpg)\)/gi\<close>, where
      the second and third words are the Cyrillic U+0420 U+0438 U+0441 and
      U+0420 U+0438 U+0441 U+0443 U+043D U+043E U+043A.\<close>
  "figurePattern s =
     Option.bind (expect True (lit ''!['') s) (\<lambda>s.
       orElse (Option.bind (expect True (lit ''Figure'') s) figureTail)
      (orElse (Option.bind (expect True [0x420, 0x438, 0x441] s) (\<lambda>s.
                 orElse (Option.bind (expect True (lit ''.'') s) figureTail) (figureTail s)))
              (Option.bind (expect True [0x420, 0x438, 0x441, 0x443, 0x43D, 0x43E, 0x43A] s)
                 figureTail)))"

fun lazyDots :: "(jsstring \<Rightarrow> jsstring option) \<Rightarrow> jsstring \<Rightarrow> jsstring option" where
  \<comment> \<open>\<^verbatim>\<open>.*?\<close> before the rest \<open>k\<close> of a pattern: the shortest run of units other than line
      terminators after which the rest matches.\<close>
  "lazyDots k [] = k []"
| "lazyDots k (c # cs) =
     orElse (k (c # cs)) (if isLineTerminator c then None else lazyDots k cs)"

definition imagePattern :: "jsstring \<Rightarrow> jsstring option" where
  \<comment> \<open>\<^verbatim>\<open>/!\[.*?\]\(https?:\/\/.*?\)/g\<close>\<close>
  "imagePattern s =
     Option.bind (expect False (lit ''!['') s) (lazyDots (\<lambda>s.
     Option.bind (expect False (lit ''](http'') s) (\<lambda>s.
     Option.bind (orElse (expect False (lit ''s://'') s) (expect False (lit ''://'') s))
       (lazyDots (expect False (lit '')''))))))"

fun matchAll :: "(jsstring \<Rightarrow> jsstring option) \<Rightarrow> jsstring \<Rightarrow> jsstring list" where
  \<comment> \<open>\<^verbatim>\<open>s.match(pattern) || []\<close> for a pattern with the \<^verbatim>\<open>g\<close> flag: the matched substrings
      from left to right, the search going on after the end of each match.\<close>
  "matchAll pat [] = []"
| "matchAll pat (c # cs) =
     (case pat (c # cs) of
        Some rest \<Rightarrow>
          (let n = Suc (length cs) - length rest
           in take n (c # cs) # matchAll pat (drop (n - 1) cs))
      | None \<Rightarrow> matchAll pat cs)"

definition figureCount :: "article \<Rightarrow> nat" where
  \<comment> \<open>\<^verbatim>\<open>article.expectedFigures\<close> as a condition is false when the field is absent and
      when it is 0.\<close>
  "figureCount art = (case expectedFigures art of None \<Rightarrow> 0 | Some n \<Rightarrow> n)"

definition checkImages :: "article \<Rightarrow> jsstring \<Rightarrow> checks \<Rightarrow> checks" where
  "checkImages art markdownText st =
     (if hasLocalImages art \<and> figureCount art \<noteq> 0 then
        (let figureMatches = matchAll figurePattern markdownText;
             st = counted st
         in if length figureMatches \<ge> figureCount art then passed st
            else st\<lparr>missing := (missing st)\<lparr>missing_images :=
                   figureCount art - length figureMatches\<rparr>\<rparr>)
      else if \<not> hasLocalImages art then
        (let imageMatches = matchAll imagePattern markdownText;
             st = counted st
         in if length imageMatches > 0 then passed st else st)
      else st)"

subsection \<open>The whole run\<close>

definition noChecks :: checks where
  "noChecks =
     \<lparr>totalChecks = 0, passedChecks = 0,
      missing = \<lparr>missing_title = False, missing_headings = [], missing_paragraphs = [],
                 missing_codeBlocks = [], missing_formulas = [], missing_listItems = [],
                 missing_images = 0\<rparr>\<rparr>"

definition runChecks :: "article \<Rightarrow> webContent \<Rightarrow> jsstring \<Rightarrow> checks" where
  \<comment> \<open>The body of \<^verbatim>\<open>verifyMarkdownContent\<close> up to the comment \<^verbatim>\<open>Calculate results\<close>.\<close>
  "runChecks art wc markdownText =
     (let normalizedMarkdown = normalizeText markdownText;
          st = noChecks;
          st = checkTitle normalizedMarkdown wc st;
          st = fold (checkHeading normalizedMarkdown) (headings wc) st;
          st = fold (checkParagraph normalizedMarkdown) (paragraphsToCheck (paragraphs wc)) st;
          normalizedMarkdownForCode = normalizeCode markdownText;
          st = fold (checkCodeBlock normalizedMarkdownForCode) (codeBlocks wc) st;
          st = fold (checkListItem normalizedMarkdown) (listItemsToCheck (listItems wc)) st
      in checkImages art markdownText st)"

definition anyMissing :: "missing \<Rightarrow> bool" where
  \<comment> \<open>\<^verbatim>\<open>missing.title || missing.images > 0 || Object.values(missing).some(arr =>
      Array.isArray(arr) && arr.length > 0)\<close>\<close>
  "anyMissing m \<longleftrightarrow>
     missing_title m \<or> missing_images m > 0 \<or>
     list_ex (\<lambda>arr. length arr > 0)
       [missing_headings m, missing_paragraphs m, missing_codeBlocks m, missing_formulas m,
        missing_listItems m]"

definition verifyMarkdownContent :: "article \<Rightarrow> webContent \<Rightarrow> jsstring \<Rightarrow> report" where
  "verifyMarkdownContent art wc markdownText =
     (let st = runChecks art wc markdownText;
          rate = (if totalChecks st > 0
                  then of_nat (passedChecks st) / of_nat (totalChecks st) else 0);
          hasMissing = anyMissing (missing st)
      in \<lparr>totalChecks = totalChecks st, passedChecks = passedChecks st,
          missing = missing st, passRate = rate, hasMissingContent = hasMissing,
          success = (\<not> hasMissing \<or> rate \<ge> 85 / 100)\<rparr>)"

section \<open>Sample inputs\<close>

text \<open>The entry of version 0.0.2 in \<^verbatim>\<open>ARTICLES\<close>, an empty page, and small inputs on which the
  properties below are run.\<close>

definition article_0_0_2 :: article where
  "article_0_0_2 = \<lparr>hasLocalImages = True, expectedFigures = Some 13\<rparr>"

definition emptyContent :: webContent where
  "emptyContent =
     \<lparr>title = [], headings = [], paragraphs = [], codeBlocks = [], formulas = [],
      listItems = [], links = [], figures = []\<rparr>"

definition three_paragraphs :: "jsstring list" where
  "three_paragraphs =
     [lit ''first paragraph'', lit ''second paragraph'', lit ''third paragraph'']"

definition bracket_block :: jsstring where
  \<comment> \<open>Four lines: an opening brace, an indented run of closing brackets, two letters, a
      closing brace.\<close>
  "bracket_block =
     lit ''{'' @ [0x0A] @ lit ''  });;'' @ [0x0A] @ lit ''ab'' @ [0x0A] @ lit ''}''"

definition intro_page :: webContent where
  "intro_page = emptyContent\<lparr>headings :=
     [\<lparr>level = lit ''h2'', heading_text = lit ''Intro''\<rparr>,
      \<lparr>level = lit ''h2'', heading_text = lit ''Links Theory''\<rparr>]\<rparr>"

definition intro_markdown :: jsstring where
  "intro_markdown = lit ''## Intro'' @ [0x0A] @ lit ''Theory of links''"

definition ten_words :: jsstring where
  "ten_words = lit ''Alpha bravo charlie delta echoes foxtrot golfing hotel india juliet''"

definition six_of_ten :: jsstring where
  "six_of_ten = lit ''foxtrot echoes delta charlie bravo alpha''"

definition five_of_ten :: jsstring where
  "five_of_ten = lit ''echoes delta charlie bravo alpha''"

definition five_lines :: jsstring where
  "five_lines =
     lit ''let a = 1;'' @ [0x0A] @ lit ''  let b = 2;'' @ [0x0A] @ lit ''let c = 3;'' @ [0x0A]
     @ lit ''let d = 4;'' @ [0x0A] @ lit ''let e = 5;''"

definition three_of_five :: jsstring where
  "three_of_five = lit ''Let A = 1; and let b = 2; or let c = 3;''"

definition two_of_five :: jsstring where
  "two_of_five = lit ''Let A = 1; and let b = 2;''"

definition short_words :: jsstring where
  \<comment> \<open>Eleven units, no word longer than two.\<close>
  "short_words = lit ''a b c d e f''"

definition three_words :: jsstring where
  "three_words = lit ''alpha beta gamma''"

definition article_without_figures :: article where
  \<comment> \<open>An article with local images that declares no figure count.\<close>
  "article_without_figures = \<lparr>hasLocalImages = True, expectedFigures = None\<rparr>"

definition article_external :: article where
  \<comment> \<open>An article whose images stay on external URLs, with a figure count all the same.\<close>
  "article_external = \<lparr>hasLocalImages = False, expectedFigures = Some 13\<rparr>"

definition article_two_figures :: article where
  "article_two_figures = \<lparr>hasLocalImages = True, expectedFigures = Some 2\<rparr>"

definition fox_page :: webContent where
  "fox_page = emptyContent
     \<lparr>title := lit ''X'',
      headings := [\<lparr>level = lit ''h2'', heading_text = lit ''Intro''\<rparr>],
      paragraphs := [lit ''The quick brown fox jumps over the lazy dog today'']\<rparr>"

definition fox_markdown :: jsstring where
  "fox_markdown =
     lit ''# X'' @ [0x0A] @ lit ''## Intro'' @ [0x0A]
     @ lit ''Quick brown fox jumped over lazy dog yesterday.''"

definition figureRef :: "string \<Rightarrow> jsstring" where
  \<comment> \<open>A line of markdown with the image of figure \<open>k\<close>.\<close>
  "figureRef k = lit ''![Figure '' @ lit k @ lit ''](images/figure-'' @ lit k @ lit ''.png)'' @ [0x0A]"

definition twelve_figures :: jsstring where
  "twelve_figures =
     figureRef ''1'' @ figureRef ''2'' @ figureRef ''3'' @ figureRef ''4'' @ figureRef ''5''
     @ figureRef ''6'' @ figureRef ''7'' @ figureRef ''8'' @ figureRef ''9'' @ figureRef ''10''
     @ figureRef ''11'' @ figureRef ''12''"

definition same_figure_twice :: jsstring where
  "same_figure_twice = figureRef ''1'' @ figureRef ''1''"

section \<open>The quotient of the specification\<close>

definition quotient :: "nat \<Rightarrow> nat \<Rightarrow> rat option" where
  \<comment> \<open>\<^verbatim>\<open>a / b\<close> on two counts, as JavaScript evaluates it: a number when \<open>b\<close> is not 0.
      \<^verbatim>\<open>0 / 0\<close> is NaN and \<^verbatim>\<open>a / 0\<close> is Infinity; neither is a number that a rate can be
      equal to, and both are \<open>None\<close> here.\<close>
  "quotient a b = (if b = 0 then None else Some (of_nat a / of_nat b))"

section \<open>Measures for the normalization\<close>

definition weight :: "jschar \<Rightarrow> nat" where
  \<comment> \<open>How many units of the output a unit of the input can account for: two for the arrows
      U+2192 and U+21A6, which become \<^verbatim>\<open>->\<close>, and for U+0130, whose lower case is two
      units; one for any other unit.\<close>
  "weight c = (if c = 0x2192 \<or> c = 0x21A6 \<or> c = 0x130 then 2 else 1)"

definition weightedLength :: "jsstring \<Rightarrow> nat" where
  "weightedLength s = sum_list (map weight s)"

definition growing :: "jschar \<Rightarrow> bool" where
  "growing c \<longleftrightarrow> c = 0x2192 \<or> c = 0x21A6 \<or> c = 0x130"

section \<open>The line filter as the specification words it\<close>

text \<open>
  The specification splits a code block into lines and discards the lines shorter than 4
  characters and the lines consisting solely of punctuation or bracket characters. The two
  definitions below follow these words, to be compared with \<open>significantLines\<close> and
  \<open>codeBlockFound\<close> of the code: the lines are not trimmed, and a punctuation character is
  any ASCII character that is neither a letter, a digit nor a space.
\<close>

definition isPunctuation :: "jschar \<Rightarrow> bool" where
  "isPunctuation c \<longleftrightarrow>
     (0x21 \<le> c \<and> c \<le> 0x2F) \<or> (0x3A \<le> c \<and> c \<le> 0x40)
     \<or> (0x5B \<le> c \<and> c \<le> 0x60) \<or> (0x7B \<le> c \<and> c \<le> 0x7E)"

definition stated_significantLines :: "jsstring \<Rightarrow> jsstring list" where
  "stated_significantLines code =
     filter (\<lambda>l. \<not> (length l < 4 \<or> (l \<noteq> [] \<and> list_all isPunctuation l))) (split 0x0A code)"

definition stated_codeBlockPresent :: "jsstring \<Rightarrow> jsstring \<Rightarrow> bool" where
  "stated_codeBlockPresent normalizedMarkdownForCode code =
     (let ls = stated_significantLines code;
          ms = filter (\<lambda>l. str_includes normalizedMarkdownForCode (normalizeCode l)) ls
      in 3 * length ls \<le> 5 * length ms
         \<or> str_includes normalizedMarkdownForCode (normalizeCode code))"

definition ruled_block :: jsstring where
  \<comment> \<open>Two rules of punctuation and a line of text.\<close>
  "ruled_block = lit ''===='' @ [0x0A] @ lit ''----'' @ [0x0A] @ lit ''foo bar''"

definition indented_block :: jsstring where
  \<comment> \<open>A short statement, indented, between two braces.\<close>
  "indented_block = lit ''{'' @ [0x0A] @ lit ''    x++'' @ [0x0A] @ lit ''}''"

section \<open>Notions for normalizing twice\<close>

definition unlowered :: "jsstring \<Rightarrow> jsstring" where
  \<comment> \<open>The chain of \<^verbatim>\<open>normalizeText\<close> before its last call, \<^verbatim>\<open>toLowerCase()\<close>.\<close>
  "unlowered text0 =
     (let t = trim text0;
          t = collapseSpaces t;
          t = replaceClass (\<lambda>c. (0x2000 \<le> c \<and> c \<le> 0x200F) \<or> (0x2028 \<le> c \<and> c \<le> 0x202F)) [0x20] t;
          t = replaceClass (\<lambda>c. c = 0xA0) [0x20] t;
          t = replaceClass (\<lambda>c. c = 0x27) [0x27] t;
          t = replaceClass (\<lambda>c. c = 0x22) [0x22] t;
          t = replaceClass (\<lambda>c. c = 0xD7) (lit ''x'') t;
          t = replaceAll False (backslash # lit ''times'') (lit ''x'') t;
          t = replaceClass (\<lambda>c. c = 0x2192 \<or> c = 0x21A6) (lit ''->'') t;
          t = replaceAll False (backslash # lit ''to'') (lit ''->'') t;
          t = replaceClass (\<lambda>c. c = 0x2212) (lit ''-'') t;
          t = replaceAll False (lit ''$$'') [] t;
          t = replaceAll False (lit ''$'') [] t;
          t = replaceAll False (backslash # lit ''subseteq'') [0x2286] t;
          t = replaceAll True (backslash # lit ''mathbb{n}_0'') [0x2115, 0x2080] t;
          t = replaceAll False (backslash # lit ''in'') [0x2208] t;
          t = replaceAll False (backslash # lit ''emptyset'') [0x2205] t;
          t = replaceAll False (lit ''^2'') [0xB2] t
      in replaceAll False (lit ''^n'') [0x207F] t)"

definition normalizeWith :: "(jschar \<Rightarrow> jsstring) \<Rightarrow> jsstring \<Rightarrow> jsstring" where
  \<comment> \<open>\<^verbatim>\<open>normalizeText\<close> with any lower case that is taken unit by unit.\<close>
  "normalizeWith low text0 = concat (map low (unlowered text0))"

definition tidy :: "jschar \<Rightarrow> bool" where
  \<comment> \<open>A unit that the chain can leave behind: not one that it replaces or removes
      wherever it stands, and no white space but the space.\<close>
  "tidy c \<longleftrightarrow>
     c \<noteq> 0x24 \<and> c \<noteq> 0xD7 \<and> c \<noteq> 0x2192 \<and> c \<noteq> 0x21A6 \<and> c \<noteq> 0x2212 \<and> c \<noteq> 0xA0
     \<and> \<not> ((0x2000 \<le> c \<and> c \<le> 0x200F) \<or> (0x2028 \<le> c \<and> c \<le> 0x202F))
     \<and> (isSpace c \<longrightarrow> c = 0x20)"

definition written :: "jschar list" where
  \<comment> \<open>The units that the chain writes: the space and the units of its replacements.\<close>
  "written = [0x20, 0x78, 0x2D, 0x3E, 0x2286, 0x2115, 0x2080, 0x2208, 0x2205, 0xB2, 0x207F]"

definition lowering :: "(jschar \<Rightarrow> jsstring) \<Rightarrow> bool" where
  \<comment> \<open>What the proofs ask of a lower case: lowering a tidy unit gives tidy units that
      stay as they are when lowered again; a capital letter of Basic Latin does not stay
      as it is; the units that the chain writes do.\<close>
  "lowering low \<longleftrightarrow>
     (\<forall>c d. tidy c \<and> d \<in> set (low c) \<longrightarrow> tidy d \<and> low d = [d])
     \<and> (\<forall>c. 0x41 \<le> c \<and> c \<le> 0x5A \<longrightarrow> low c \<noteq> [c])
     \<and> (\<forall>c \<in> set written. low c = [c])"

definition edgesClean :: "jsstring \<Rightarrow> bool" where
  \<comment> \<open>No white space at either end.\<close>
  "edgesClean s \<longleftrightarrow> s = [] \<or> (\<not> isSpace (hd s) \<and> \<not> isSpace (last s))"

definition escapeRules :: "(bool \<times> jsstring \<times> jsstring) list" where
  \<comment> \<open>The literal patterns of the chain that are longer than one unit and are not made of
      dollar signs, in its order: the \<^verbatim>\<open>i\<close> flag, the pattern, the replacement.\<close>
  "escapeRules =
     [(False, backslash # lit ''times'', lit ''x''),
      (False, backslash # lit ''to'', lit ''->''),
      (False, backslash # lit ''subseteq'', [0x2286]),
      (True, backslash # lit ''mathbb{n}_0'', [0x2115, 0x2080]),
      (False, backslash # lit ''in'', [0x2208]),
      (False, backslash # lit ''emptyset'', [0x2205]),
      (False, lit ''^2'', [0xB2]),
      (False, lit ''^n'', [0x207F])]"

definition escapePatterns :: "jsstring list" where
  "escapePatterns = map (\<lambda>(ci, pat, rep). pat) escapeRules"

definition settled :: "jsstring \<Rightarrow> bool" where
  \<comment> \<open>Nothing is left for a second pass: no white space at either end, no two spaces in
      a row, none of the escapes.\<close>
  "settled t \<longleftrightarrow>
     edgesClean t \<and> \<not> str_includes t (lit ''  '')
     \<and> list_all (\<lambda>pat. \<not> str_includes t pat) escapePatterns"

fun occurs :: "bool \<Rightarrow> jsstring \<Rightarrow> jsstring \<Rightarrow> bool" where
  \<comment> \<open>\<open>occurs ci pat s\<close>: the pattern matches somewhere in \<open>s\<close>.\<close>
  "occurs ci pat [] = (pat = [])"
| "occurs ci pat (c # cs) = (startsWith ci pat (c # cs) \<or> occurs ci pat cs)"

definition escapeStep :: "bool \<times> jsstring \<times> jsstring \<Rightarrow> jsstring \<Rightarrow> jsstring" where
  "escapeStep rule s = (case rule of (ci, pat, rep) \<Rightarrow> replaceAll ci pat rep s)"

section \<open>Properties of the verification run\<close>

lemmas string_defs =
  lit_def backslash_def isSpace_def isDigit_def isLineTerminator_def trim_def lowerUnit_def
  toLowerCase_def canonicalize_def sameUnit_def substring_def collapseSpaces_def
  replaceClass_def

lemmas normalize_defs = normalizeText_def normalizeCode_def

lemmas check_defs =
  counted_def passed_def checkTitle_def headingFound_def checkHeading_def
  paragraphsToCheck_def qualifyingWords_def matchingWords_def wordMatchRate_def
  substringMatch_def paragraphFound_def checkParagraph_def onlyBrackets_def
  significantLines_def matchingLines_def lineMatchRate_def codeBlockFound_def
  checkCodeBlock_def listItemsToCheck_def listItemFound_def checkListItem_def

lemmas image_defs =
  expect_def digits_def orElse_def figureTail_def figurePattern_def imagePattern_def
  figureCount_def checkImages_def

lemmas run_defs = noChecks_def runChecks_def anyMissing_def verifyMarkdownContent_def

subsection \<open>Substrings\<close>

lemma startsWith_prefix: "startsWith False pat s \<longleftrightarrow> prefix pat s"
proof (induction pat arbitrary: s)
  case Nil
  show ?case by simp
next
  case (Cons p ps)
  show ?case by (cases s) (simp_all add: sameUnit_def Cons.IH)
qed

lemma str_includes_sublist: "str_includes hay needle \<longleftrightarrow> sublist needle hay"
  by (induction hay) (simp_all add: startsWith_prefix sublist_Cons_right)

subsection \<open>How many checks a run performs\<close>

lemma total_checkTitle:
  "totalChecks (checkTitle nm wc st) = totalChecks st + (if title wc \<noteq> [] then 1 else 0)"
  by (simp add: checkTitle_def counted_def passed_def Let_def)

lemma total_checkHeading: "totalChecks (checkHeading nm h st) = totalChecks st + 1"
  by (simp add: checkHeading_def counted_def passed_def Let_def)

lemma total_checkParagraph: "totalChecks (checkParagraph nm p st) = totalChecks st + 1"
  by (simp add: checkParagraph_def counted_def passed_def Let_def)

lemma total_checkCodeBlock: "totalChecks (checkCodeBlock nm c st) = totalChecks st + 1"
  by (simp add: checkCodeBlock_def counted_def passed_def Let_def)

lemma total_checkListItem: "totalChecks (checkListItem nm i st) = totalChecks st + 1"
  by (simp add: checkListItem_def counted_def passed_def Let_def)

lemma total_fold:
  assumes "\<And>x st. totalChecks (step x st) = totalChecks st + 1"
  shows "totalChecks (fold step xs st) = totalChecks st + length xs"
  by (induction xs arbitrary: st) (simp_all add: assms)

lemma total_checkImages:
  "totalChecks (checkImages art md st) =
     totalChecks st + (if hasLocalImages art \<and> figureCount art = 0 then 0 else 1)"
  by (simp add: checkImages_def counted_def passed_def Let_def)

lemma total_runChecks:
  "totalChecks (runChecks art wc md) =
     (if title wc \<noteq> [] then 1 else 0) + length (headings wc)
     + length (paragraphsToCheck (paragraphs wc)) + length (codeBlocks wc)
     + length (listItemsToCheck (listItems wc))
     + (if hasLocalImages art \<and> figureCount art = 0 then 0 else 1)"
  unfolding runChecks_def Let_def
  by (simp only: total_checkImages total_fold[of "checkListItem _", OF total_checkListItem]
      total_fold[of "checkCodeBlock _", OF total_checkCodeBlock]
      total_fold[of "checkParagraph _", OF total_checkParagraph]
      total_fold[of "checkHeading _", OF total_checkHeading] total_checkTitle)
     (simp add: noChecks_def)

lemma total_verify:
  "totalChecks (verifyMarkdownContent art wc md) = totalChecks (runChecks art wc md)"
  by (simp add: verifyMarkdownContent_def Let_def)

lemma length_paragraphsToCheck:
  "length (paragraphsToCheck ps) = min 5 (length ps) + min 5 (length ps)"
  by (simp add: paragraphsToCheck_def min_def)

text \<open>
  C10. A page with \<open>n\<close> paragraphs has \<open>min 5 n + min 5 n\<close> paragraph checks, the first
  five and the last five, and this is what the paragraphs add to \<^verbatim>\<open>totalChecks\<close>. The two
  slices overlap when \<open>n < 10\<close>: the count is then larger than \<open>n\<close>, paragraphs being checked
  and counted twice.
\<close>

theorem paragraph_checks_counted_twice:
  "length (paragraphsToCheck ps) = min 5 (length ps) + min 5 (length ps)
   \<and> totalChecks (verifyMarkdownContent art (wc\<lparr>paragraphs := ps\<rparr>) md)
       = totalChecks (verifyMarkdownContent art (wc\<lparr>paragraphs := []\<rparr>) md)
         + (min 5 (length ps) + min 5 (length ps))
   \<and> (0 < length ps \<and> length ps < 10 \<longrightarrow> length ps < length (paragraphsToCheck ps))"
proof -
  have slices: "length (paragraphsToCheck ps) = min 5 (length ps) + min 5 (length ps)"
    by (rule length_paragraphsToCheck)
  have none: "length (paragraphsToCheck ([] :: jsstring list)) = 0"
    by (simp add: paragraphsToCheck_def)
  have run: "totalChecks (verifyMarkdownContent art (wc\<lparr>paragraphs := ps\<rparr>) md)
       = totalChecks (verifyMarkdownContent art (wc\<lparr>paragraphs := []\<rparr>) md)
         + (min 5 (length ps) + min 5 (length ps))"
    by (simp add: total_verify total_runChecks slices none)
  have more: "0 < length ps \<and> length ps < 10 \<longrightarrow> length ps < length (paragraphsToCheck ps)"
    unfolding slices by (simp add: min_def)
  from slices run more show ?thesis by blast
qed

theorem paragraph_checks_counted_twice_witness:
  "length (paragraphsToCheck three_paragraphs) = 6
   \<and> totalChecks (verifyMarkdownContent article_0_0_2
         (emptyContent\<lparr>paragraphs := three_paragraphs\<rparr>) [])
       = totalChecks (verifyMarkdownContent article_0_0_2
           (emptyContent\<lparr>paragraphs := []\<rparr>) []) + 6
   \<and> 3 < length (paragraphsToCheck three_paragraphs)"
  using paragraph_checks_counted_twice [of three_paragraphs article_0_0_2 emptyContent "[]"]
  by (simp add: three_paragraphs_def)

subsection \<open>Code blocks\<close>

lemma passed_checkCodeBlock:
  "codeBlockFound nmc code \<Longrightarrow> checkCodeBlock nmc code st = passed (counted st)"
  by (simp add: checkCodeBlock_def Let_def)

text \<open>
  C9. A code block whose lines, once trimmed, are all at most three units long or made of
  the bracket characters only has no significant line. Its match rate is then 1 and the
  block passes, whatever the markdown contains.
\<close>

theorem code_block_without_significant_lines_is_found:
  assumes "\<forall>l \<in> set (map trim (split 0x0A code)). length l \<le> 3 \<or> onlyBrackets l"
  shows "significantLines code = [] \<and> lineMatchRate nmc code = 1 \<and> codeBlockFound nmc code
         \<and> passedChecks (checkCodeBlock nmc code st) = passedChecks st + 1
         \<and> missing (checkCodeBlock nmc code st) = missing st"
proof -
  have none: "significantLines code = []"
    unfolding significantLines_def filter_empty_conv using assms by fastforce
  have rate: "lineMatchRate nmc code = 1"
    by (simp add: lineMatchRate_def none)
  have found: "codeBlockFound nmc code"
    by (simp add: codeBlockFound_def rate)
  have "checkCodeBlock nmc code st = passed (counted st)"
    using found by (rule passed_checkCodeBlock)
  then have "passedChecks (checkCodeBlock nmc code st) = passedChecks st + 1"
    and "missing (checkCodeBlock nmc code st) = missing st"
    by (simp_all add: passed_def counted_def)
  with none rate found show ?thesis by blast
qed

theorem code_block_without_significant_lines_is_found_witness:
  "significantLines bracket_block = [] \<and> codeBlockFound [] bracket_block
   \<and> \<not> str_includes [] (normalizeCode bracket_block)"
proof -
  have h: "\<forall>l \<in> set (map trim (split 0x0A bracket_block)). length l \<le> 3 \<or> onlyBrackets l"
    by (simp add: bracket_block_def string_defs onlyBrackets_def)
  have "\<not> str_includes [] (normalizeCode bracket_block)"
    by (simp add: bracket_block_def string_defs normalizeCode_def)
  with code_block_without_significant_lines_is_found [OF h, of "[]"] show ?thesis by blast
qed

subsection \<open>What a run records and how many checks pass\<close>


lemma missing_checkTitle:
  "missing (checkTitle nm wc st) =
     (if title wc \<noteq> [] \<and> \<not> str_includes nm (normalizeText (title wc))
      then (missing st)\<lparr>missing_title := True\<rparr> else missing st)"
  by (simp add: checkTitle_def counted_def passed_def Let_def)

lemma missing_fold_checkHeading:
  "missing (fold (checkHeading nm) hs st) =
     (missing st)\<lparr>missing_headings := missing_headings (missing st)
        @ map heading_text (filter (\<lambda>h. \<not> headingFound nm h) hs)\<rparr>"
  by (induction hs arbitrary: st) (simp_all add: checkHeading_def counted_def passed_def Let_def)

lemma missing_fold_checkParagraph:
  "missing (fold (checkParagraph nm) ps st) =
     (missing st)\<lparr>missing_paragraphs := missing_paragraphs (missing st)
        @ map (\<lambda>p. substring p 100 @ lit ''...'') (filter (\<lambda>p. \<not> paragraphFound nm p) ps)\<rparr>"
  by (induction ps arbitrary: st) (simp_all add: checkParagraph_def counted_def passed_def Let_def)

lemma missing_fold_checkCodeBlock:
  "missing (fold (checkCodeBlock nmc) cs st) =
     (missing st)\<lparr>missing_codeBlocks := missing_codeBlocks (missing st)
        @ map (\<lambda>c. substring c 100 @ lit ''...'') (filter (\<lambda>c. \<not> codeBlockFound nmc c) cs)\<rparr>"
  by (induction cs arbitrary: st) (simp_all add: checkCodeBlock_def counted_def passed_def Let_def)

lemma missing_fold_checkListItem:
  "missing (fold (checkListItem nm) items st) =
     (missing st)\<lparr>missing_listItems := missing_listItems (missing st)
        @ map (\<lambda>i. substring i 100 @ lit ''...'') (filter (\<lambda>i. \<not> listItemFound nm i) items)\<rparr>"
  by (induction items arbitrary: st) (simp_all add: checkListItem_def counted_def passed_def Let_def)

lemma missing_checkImages:
  "missing (checkImages art md st) =
     (if hasLocalImages art \<and> figureCount art \<noteq> 0
         \<and> length (matchAll figurePattern md) < figureCount art
      then (missing st)\<lparr>missing_images := figureCount art - length (matchAll figurePattern md)\<rparr>
      else missing st)"
  by (simp add: checkImages_def counted_def passed_def Let_def)

lemma missing_runChecks:
  "missing (runChecks art wc md) =
     \<lparr>missing_title = (title wc \<noteq> [] \<and> \<not> str_includes (normalizeText md) (normalizeText (title wc))),
      missing_headings =
        map heading_text (filter (\<lambda>h. \<not> headingFound (normalizeText md) h) (headings wc)),
      missing_paragraphs =
        map (\<lambda>p. substring p 100 @ lit ''...'')
          (filter (\<lambda>p. \<not> paragraphFound (normalizeText md) p) (paragraphsToCheck (paragraphs wc))),
      missing_codeBlocks =
        map (\<lambda>c. substring c 100 @ lit ''...'')
          (filter (\<lambda>c. \<not> codeBlockFound (normalizeCode md) c) (codeBlocks wc)),
      missing_formulas = [],
      missing_listItems =
        map (\<lambda>i. substring i 100 @ lit ''...'')
          (filter (\<lambda>i. \<not> listItemFound (normalizeText md) i) (listItemsToCheck (listItems wc))),
      missing_images =
        (if hasLocalImages art then figureCount art - length (matchAll figurePattern md) else 0)\<rparr>"
  unfolding runChecks_def Let_def
  by (simp only: missing_checkImages missing_fold_checkListItem missing_fold_checkCodeBlock
        missing_fold_checkParagraph missing_fold_checkHeading missing_checkTitle)
     (simp add: noChecks_def)

lemma passed_checkTitle:
  "passedChecks (checkTitle nm wc st) = passedChecks st +
     (if title wc \<noteq> [] \<and> str_includes nm (normalizeText (title wc)) then 1 else 0)"
  by (simp add: checkTitle_def counted_def passed_def Let_def)

lemma passed_fold_checkHeading:
  "passedChecks (fold (checkHeading nm) hs st) =
     passedChecks st + length (filter (headingFound nm) hs)"
  by (induction hs arbitrary: st) (simp_all add: checkHeading_def counted_def passed_def Let_def)

lemma passed_fold_checkParagraph:
  "passedChecks (fold (checkParagraph nm) ps st) =
     passedChecks st + length (filter (paragraphFound nm) ps)"
  by (induction ps arbitrary: st) (simp_all add: checkParagraph_def counted_def passed_def Let_def)

lemma passed_fold_checkCodeBlock:
  "passedChecks (fold (checkCodeBlock nmc) cs st) =
     passedChecks st + length (filter (codeBlockFound nmc) cs)"
  by (induction cs arbitrary: st) (simp_all add: checkCodeBlock_def counted_def passed_def Let_def)

lemma passed_fold_checkListItem:
  "passedChecks (fold (checkListItem nm) items st) =
     passedChecks st + length (filter (listItemFound nm) items)"
  by (induction items arbitrary: st) (simp_all add: checkListItem_def counted_def passed_def Let_def)

lemma passed_checkImages:
  "passedChecks (checkImages art md st) = passedChecks st +
     (if hasLocalImages art
      then (if figureCount art \<noteq> 0 \<and> figureCount art \<le> length (matchAll figurePattern md)
            then 1 else 0)
      else (if matchAll imagePattern md \<noteq> [] then 1 else 0))"
  by (simp add: checkImages_def counted_def passed_def Let_def)

lemma passed_runChecks:
  "passedChecks (runChecks art wc md) =
     (if title wc \<noteq> [] \<and> str_includes (normalizeText md) (normalizeText (title wc)) then 1 else 0)
     + length (filter (headingFound (normalizeText md)) (headings wc))
     + length (filter (paragraphFound (normalizeText md)) (paragraphsToCheck (paragraphs wc)))
     + length (filter (codeBlockFound (normalizeCode md)) (codeBlocks wc))
     + length (filter (listItemFound (normalizeText md)) (listItemsToCheck (listItems wc)))
     + (if hasLocalImages art
        then (if figureCount art \<noteq> 0 \<and> figureCount art \<le> length (matchAll figurePattern md)
              then 1 else 0)
        else (if matchAll imagePattern md \<noteq> [] then 1 else 0))"
  unfolding runChecks_def Let_def
  by (simp only: passed_checkImages passed_fold_checkListItem passed_fold_checkCodeBlock
        passed_fold_checkParagraph passed_fold_checkHeading passed_checkTitle)
     (simp add: noChecks_def)

lemma passed_le_total: "passedChecks (runChecks art wc md) \<le> totalChecks (runChecks art wc md)"
  unfolding passed_runChecks total_runChecks
  by (intro add_mono length_filter_le) auto

lemma rate_at_least:
  "0 < n \<Longrightarrow> (6 / 10 \<le> (of_nat m :: rat) / of_nat n) \<longleftrightarrow> 3 * n \<le> 5 * m"
proof -
  assume n: "0 < n"
  have "(6 / 10 \<le> (of_nat m :: rat) / of_nat n) \<longleftrightarrow> (6 / 10) * of_nat n \<le> (of_nat m :: rat)"
    using n by (simp add: pos_le_divide_eq)
  also have "\<dots> \<longleftrightarrow> (of_nat (3 * n) :: rat) \<le> of_nat (5 * m)"
    by (simp add: mult.commute)
  also have "\<dots> \<longleftrightarrow> 3 * n \<le> 5 * m"
    by (simp only: of_nat_le_iff)
  finally show ?thesis .
qed

lemma wordMatchRate_at_least:
  "6 / 10 \<le> wordMatchRate nm n \<longleftrightarrow>
     qualifyingWords n \<noteq> []
     \<and> 3 * length (qualifyingWords n) \<le> 5 * length (matchingWords nm (qualifyingWords n))"
proof (cases "qualifyingWords n = []")
  case True
  then have "wordMatchRate nm n = 0"
    by (simp add: wordMatchRate_def)
  with True show ?thesis by simp
next
  case False
  then have r: "wordMatchRate nm n =
      of_nat (length (matchingWords nm (qualifyingWords n))) / of_nat (length (qualifyingWords n))"
    by (simp add: wordMatchRate_def Let_def)
  from False have "0 < length (qualifyingWords n)" by simp
  from rate_at_least [OF this] False show ?thesis
    unfolding r by blast
qed

lemma lineMatchRate_at_least:
  "6 / 10 \<le> lineMatchRate nmc code \<longleftrightarrow>
     3 * length (significantLines code) \<le> 5 * length (matchingLines nmc (significantLines code))"
proof (cases "significantLines code = []")
  case True
  then have "lineMatchRate nmc code = 1"
    by (simp add: lineMatchRate_def)
  with True show ?thesis by simp
next
  case False
  then have r: "lineMatchRate nmc code =
      of_nat (length (matchingLines nmc (significantLines code))) / of_nat (length (significantLines code))"
    by (simp add: lineMatchRate_def Let_def)
  from False have "0 < length (significantLines code)" by simp
  from rate_at_least [OF this] show ?thesis
    unfolding r by blast
qed

subsection \<open>Headings\<close>

lemma headingFound_sublist:
  "headingFound nm h \<longleftrightarrow> sublist (normalizeText (heading_text h)) nm"
  by (simp add: headingFound_def str_includes_sublist)

lemma missing_verify:
  "missing (verifyMarkdownContent art wc md) = missing (runChecks art wc md)"
  by (simp add: verifyMarkdownContent_def Let_def)

text \<open>
  C4. A heading is found exactly when its normalized text occurs in the normalized markdown
  as a contiguous substring. The check has no other way to pass: it adds one to the passed
  checks when the substring is there and records the heading as missing otherwise, so the
  missing headings of the report are the headings whose normalized text is not a substring,
  in their order.
\<close>

theorem heading_found_iff_exact_substring:
  "(headingFound (normalizeText md) h
      \<longleftrightarrow> (\<exists>before after. normalizeText md = before @ normalizeText (heading_text h) @ after))
   \<and> totalChecks (checkHeading (normalizeText md) h st) = totalChecks st + 1
   \<and> passedChecks (checkHeading (normalizeText md) h st)
       = passedChecks st + (if headingFound (normalizeText md) h then 1 else 0)
   \<and> missing_headings (missing (verifyMarkdownContent art wc md))
       = map heading_text
           (filter (\<lambda>h. \<not> sublist (normalizeText (heading_text h)) (normalizeText md))
              (headings wc))"
proof -
  have found: "headingFound (normalizeText md) h
      \<longleftrightarrow> (\<exists>before after. normalizeText md = before @ normalizeText (heading_text h) @ after)"
    by (simp add: headingFound_sublist sublist_def)
  have total: "totalChecks (checkHeading (normalizeText md) h st) = totalChecks st + 1"
    by (rule total_checkHeading)
  have pass: "passedChecks (checkHeading (normalizeText md) h st)
       = passedChecks st + (if headingFound (normalizeText md) h then 1 else 0)"
    by (simp add: checkHeading_def counted_def passed_def Let_def)
  have report: "missing_headings (missing (verifyMarkdownContent art wc md))
       = map heading_text
           (filter (\<lambda>h. \<not> sublist (normalizeText (heading_text h)) (normalizeText md))
              (headings wc))"
    by (simp add: missing_verify missing_runChecks headingFound_sublist)
  from found total pass report show ?thesis by blast
qed

theorem heading_found_iff_exact_substring_witness:
  "missing_headings (missing (verifyMarkdownContent article_0_0_2 intro_page intro_markdown))
     = [lit ''Links Theory'']"
proof -
  have md: "normalizeText intro_markdown = lit ''## intro theory of links''"
    by (simp add: intro_markdown_def string_defs normalizeText_def)
  have h1: "normalizeText (lit ''Intro'') = lit ''intro''"
    by (simp add: string_defs normalizeText_def)
  have h2: "normalizeText (lit ''Links Theory'') = lit ''links theory''"
    by (simp add: string_defs normalizeText_def)
  have s1: "sublist (lit ''intro'') (lit ''## intro theory of links'')"
    unfolding str_includes_sublist[symmetric] by (simp add: string_defs)
  have s2: "\<not> sublist (lit ''links theory'') (lit ''## intro theory of links'')"
    unfolding str_includes_sublist[symmetric] by (simp add: string_defs)
  show ?thesis
    using heading_found_iff_exact_substring
      [of intro_markdown "\<lparr>level = lit ''h2'', heading_text = lit ''Intro''\<rparr>" noChecks
          article_0_0_2 intro_page]
    by (simp add: intro_page_def emptyContent_def md h1 h2 s1 s2)
qed

subsection \<open>Paragraphs and list items\<close>

text \<open>
  C2. For a paragraph with normalized text \<open>n\<close>, the words are the pieces of \<open>n\<close> between
  spaces that are longer than two units, and a word matches when it is a substring of the
  normalized markdown. The paragraph is found exactly when there is a word and at least 60%
  of the words match, or \<open>n\<close> is longer than 20 units and its first 50 units are a substring
  of the normalized markdown; a list item likewise with 15 and 40. With ten words of which
  six match the rate is 0.6 and the paragraph is found; with five of ten and no such
  substring it is missing.
\<close>

theorem paragraph_found_by_word_ratio_or_prefix:
  fixes nm p :: jsstring
  defines "n \<equiv> normalizeText p"
  defines "ws \<equiv> filter (\<lambda>w. 2 < length w) (split 0x20 n)"
  defines "ms \<equiv> filter (\<lambda>w. sublist w nm) ws"
  shows "qualifyingWords n = ws \<and> matchingWords nm ws = ms
   \<and> (paragraphFound nm p \<longleftrightarrow>
        (ws \<noteq> [] \<and> 3 * length ws \<le> 5 * length ms) \<or> (20 < length n \<and> sublist (take 50 n) nm))
   \<and> (listItemFound nm p \<longleftrightarrow>
        (ws \<noteq> [] \<and> 3 * length ws \<le> 5 * length ms) \<or> (15 < length n \<and> sublist (take 40 n) nm))
   \<and> (length ws = 10 \<and> length ms = 6 \<longrightarrow> wordMatchRate nm n = 6 / 10 \<and> paragraphFound nm p)
   \<and> (length ws = 10 \<and> length ms = 5 \<and> \<not> substringMatch 20 50 nm n
        \<longrightarrow> wordMatchRate nm n = 5 / 10 \<and> \<not> paragraphFound nm p)
   \<and> missing_paragraphs (missing (verifyMarkdownContent art wc md))
       = map (\<lambda>p. take 100 p @ lit ''...'')
           (filter (\<lambda>p. \<not> paragraphFound (normalizeText md) p) (paragraphsToCheck (paragraphs wc)))
   \<and> missing_listItems (missing (verifyMarkdownContent art wc md))
       = map (\<lambda>i. take 100 i @ lit ''...'')
           (filter (\<lambda>i. \<not> listItemFound (normalizeText md) i) (take 10 (listItems wc)))"
proof -
  have report: "missing_paragraphs (missing (verifyMarkdownContent art wc md))
       = map (\<lambda>p. take 100 p @ lit ''...'')
           (filter (\<lambda>p. \<not> paragraphFound (normalizeText md) p) (paragraphsToCheck (paragraphs wc)))"
    "missing_listItems (missing (verifyMarkdownContent art wc md))
       = map (\<lambda>i. take 100 i @ lit ''...'')
           (filter (\<lambda>i. \<not> listItemFound (normalizeText md) i) (take 10 (listItems wc)))"
    by (simp_all add: missing_verify missing_runChecks substring_def listItemsToCheck_def)
  have ws: "qualifyingWords n = ws"
    by (simp add: qualifyingWords_def ws_def)
  have ms: "matchingWords nm ws = ms"
    by (simp add: matchingWords_def ms_def str_includes_sublist)
  have rate: "6 / 10 \<le> wordMatchRate nm n \<longleftrightarrow> ws \<noteq> [] \<and> 3 * length ws \<le> 5 * length ms"
    by (simp only: wordMatchRate_at_least ws ms)
  have prefix: "substringMatch lo hi nm n \<longleftrightarrow> lo < length n \<and> sublist (take hi n) nm" for lo hi
    by (simp add: substringMatch_def substring_def str_includes_sublist min_def)
  have par: "paragraphFound nm p \<longleftrightarrow>
        (ws \<noteq> [] \<and> 3 * length ws \<le> 5 * length ms) \<or> (20 < length n \<and> sublist (take 50 n) nm)"
    unfolding paragraphFound_def Let_def n_def[symmetric] by (simp only: rate prefix)
  have item: "listItemFound nm p \<longleftrightarrow>
        (ws \<noteq> [] \<and> 3 * length ws \<le> 5 * length ms) \<or> (15 < length n \<and> sublist (take 40 n) nm)"
    unfolding listItemFound_def Let_def n_def[symmetric] by (simp only: rate prefix)
  have six: "length ws = 10 \<and> length ms = 6 \<longrightarrow> wordMatchRate nm n = 6 / 10 \<and> paragraphFound nm p"
  proof
    assume h: "length ws = 10 \<and> length ms = 6"
    then have "ws \<noteq> []" by auto
    with h have "wordMatchRate nm n = 6 / 10"
      by (simp add: wordMatchRate_def Let_def ws ms)
    moreover from h \<open>ws \<noteq> []\<close> have "paragraphFound nm p"
      by (simp add: par)
    ultimately show "wordMatchRate nm n = 6 / 10 \<and> paragraphFound nm p" ..
  qed
  have five: "length ws = 10 \<and> length ms = 5 \<and> \<not> substringMatch 20 50 nm n
        \<longrightarrow> wordMatchRate nm n = 5 / 10 \<and> \<not> paragraphFound nm p"
  proof
    assume h: "length ws = 10 \<and> length ms = 5 \<and> \<not> substringMatch 20 50 nm n"
    then have "ws \<noteq> []" by auto
    with h have "wordMatchRate nm n = 5 / 10"
      by (simp add: wordMatchRate_def Let_def ws ms)
    moreover from h have "\<not> paragraphFound nm p"
      by (simp add: par prefix)
    ultimately show "wordMatchRate nm n = 5 / 10 \<and> \<not> paragraphFound nm p" ..
  qed
  from ws ms par item six five report show ?thesis by blast
qed

lemma ten_words_normalized:
  "normalizeText ten_words =
     lit ''alpha bravo charlie delta echoes foxtrot golfing hotel india juliet''"
  by (simp add: ten_words_def string_defs normalizeText_def)

lemma ten_words_split:
  "filter (\<lambda>w. 2 < length w)
     (split 0x20 (lit ''alpha bravo charlie delta echoes foxtrot golfing hotel india juliet''))
   = [lit ''alpha'', lit ''bravo'', lit ''charlie'', lit ''delta'', lit ''echoes'',
      lit ''foxtrot'', lit ''golfing'', lit ''hotel'', lit ''india'', lit ''juliet'']"
  by (simp add: string_defs)

theorem paragraph_found_by_word_ratio_or_prefix_witness:
  "paragraphFound six_of_ten ten_words \<and> wordMatchRate six_of_ten (normalizeText ten_words) = 6 / 10
   \<and> \<not> paragraphFound five_of_ten ten_words
   \<and> wordMatchRate five_of_ten (normalizeText ten_words) = 5 / 10"
proof -
  let ?ws = "filter (\<lambda>w. 2 < length w) (split 0x20 (normalizeText ten_words))"
  have ten: "length ?ws = 10"
    by (simp only: ten_words_normalized ten_words_split) simp
  have six: "length (filter (\<lambda>w. sublist w six_of_ten) ?ws) = 6"
    unfolding ten_words_normalized ten_words_split str_includes_sublist[symmetric]
    by (simp add: six_of_ten_def string_defs)
  have five: "length (filter (\<lambda>w. sublist w five_of_ten) ?ws) = 5"
    unfolding ten_words_normalized ten_words_split str_includes_sublist[symmetric]
    by (simp add: five_of_ten_def string_defs)
  have none: "\<not> substringMatch 20 50 five_of_ten (normalizeText ten_words)"
    unfolding ten_words_normalized
    by (simp add: substringMatch_def five_of_ten_def string_defs)
  from paragraph_found_by_word_ratio_or_prefix [where p = ten_words and nm = six_of_ten] ten six
  have a: "paragraphFound six_of_ten ten_words
      \<and> wordMatchRate six_of_ten (normalizeText ten_words) = 6 / 10"
    by blast
  from paragraph_found_by_word_ratio_or_prefix [where p = ten_words and nm = five_of_ten] ten five none
  have b: "\<not> paragraphFound five_of_ten ten_words
      \<and> wordMatchRate five_of_ten (normalizeText ten_words) = 5 / 10"
    by blast
  from a b show ?thesis by blast
qed

subsection \<open>Code blocks, by lines\<close>

text \<open>
  C5, as the code has it. A code block is split at line feeds and each line is trimmed. A
  line is dropped when it is shorter than four units or made of the characters \<^verbatim>\<open>{}[](),;\<close> only; the lines
  left are the significant ones. The block is found exactly when at least 60% of the
  significant lines, each normalized by \<^verbatim>\<open>normalizeCode\<close>, are substrings of the markdown
  normalized by \<^verbatim>\<open>normalizeCode\<close>, or the whole normalized block is such a substring.
\<close>

theorem code_block_found_by_line_ratio_or_verbatim:
  fixes md code :: jsstring
  defines "nmc \<equiv> normalizeCode md"
  defines "ls \<equiv> filter (\<lambda>l. \<not> (length l < 4 \<or> (l \<noteq> [] \<and> set l \<subseteq> set (lit ''{}[](),;''))))
                   (map trim (split 0x0A code))"
  defines "ms \<equiv> filter (\<lambda>l. sublist (normalizeCode l) nmc) ls"
  shows "significantLines code = ls \<and> matchingLines nmc ls = ms
   \<and> (codeBlockFound nmc code \<longleftrightarrow>
        3 * length ls \<le> 5 * length ms \<or> sublist (normalizeCode code) nmc)
   \<and> passedChecks (checkCodeBlock nmc code st)
       = passedChecks st + (if codeBlockFound nmc code then 1 else 0)
   \<and> missing_codeBlocks (missing (verifyMarkdownContent art wc md))
       = map (\<lambda>c. take 100 c @ lit ''...'')
           (filter (\<lambda>c. \<not> codeBlockFound nmc c) (codeBlocks wc))"
proof -
  have keep: "(3 < length l \<and> \<not> onlyBrackets l)
      \<longleftrightarrow> \<not> (length l < 4 \<or> (l \<noteq> [] \<and> set l \<subseteq> set (lit ''{}[](),;'')))" for l
    by (auto simp: onlyBrackets_def list_all_iff)
  have ls: "significantLines code = ls"
    unfolding significantLines_def ls_def by (simp only: keep)
  have ms: "matchingLines nmc ls = ms"
    by (simp add: matchingLines_def ms_def str_includes_sublist)
  have rate: "6 / 10 \<le> lineMatchRate nmc code \<longleftrightarrow> 3 * length ls \<le> 5 * length ms"
    by (simp only: lineMatchRate_at_least ls ms)
  have found: "codeBlockFound nmc code \<longleftrightarrow>
        3 * length ls \<le> 5 * length ms \<or> sublist (normalizeCode code) nmc"
    unfolding codeBlockFound_def Let_def by (simp only: rate str_includes_sublist)
  have pass: "passedChecks (checkCodeBlock nmc code st)
       = passedChecks st + (if codeBlockFound nmc code then 1 else 0)"
    by (simp add: checkCodeBlock_def counted_def passed_def Let_def)
  have report: "missing_codeBlocks (missing (verifyMarkdownContent art wc md))
       = map (\<lambda>c. take 100 c @ lit ''...'')
           (filter (\<lambda>c. \<not> codeBlockFound nmc c) (codeBlocks wc))"
    by (simp add: missing_verify missing_runChecks substring_def nmc_def)
  from ls ms found pass report show ?thesis by blast
qed

lemma three_of_five_normalized:
  "normalizeCode three_of_five = lit ''let a = 1; and let b = 2; or let c = 3;''"
  by (simp add: three_of_five_def string_defs normalizeCode_def)

lemma two_of_five_normalized:
  "normalizeCode two_of_five = lit ''let a = 1; and let b = 2;''"
  by (simp add: two_of_five_def string_defs normalizeCode_def)

lemma five_lines_split:
  "map trim (split 0x0A five_lines) =
     [lit ''let a = 1;'', lit ''let b = 2;'', lit ''let c = 3;'', lit ''let d = 4;'',
      lit ''let e = 5;'']"
  by (simp add: five_lines_def string_defs)

lemma five_lines_normalized:
  "normalizeCode five_lines = lit ''let a = 1; let b = 2; let c = 3; let d = 4; let e = 5;''"
  by (simp add: five_lines_def string_defs normalizeCode_def)

lemma five_lines_each_normalized:
  "map normalizeCode
     [lit ''let a = 1;'', lit ''let b = 2;'', lit ''let c = 3;'', lit ''let d = 4;'',
      lit ''let e = 5;'']
   = [lit ''let a = 1;'', lit ''let b = 2;'', lit ''let c = 3;'', lit ''let d = 4;'',
      lit ''let e = 5;'']"
  by (simp add: string_defs normalizeCode_def)

theorem code_block_found_by_line_ratio_or_verbatim_witness:
  "codeBlockFound (normalizeCode three_of_five) five_lines
   \<and> length (matchingLines (normalizeCode three_of_five) (significantLines five_lines)) = 3
   \<and> \<not> codeBlockFound (normalizeCode two_of_five) five_lines
   \<and> length (matchingLines (normalizeCode two_of_five) (significantLines five_lines)) = 2
   \<and> length (significantLines five_lines) = 5"
proof -
  let ?lines = "[lit ''let a = 1;'', lit ''let b = 2;'', lit ''let c = 3;'', lit ''let d = 4;'',
      lit ''let e = 5;'']"
  let ?ls = "filter (\<lambda>l. \<not> (length l < 4 \<or> (l \<noteq> [] \<and> set l \<subseteq> set (lit ''{}[](),;''))))
                   (map trim (split 0x0A five_lines))"
  have ls: "?ls = ?lines"
    unfolding five_lines_split by (simp add: string_defs)
  have each: "normalizeCode (lit ''let a = 1;'') = lit ''let a = 1;''"
    "normalizeCode (lit ''let b = 2;'') = lit ''let b = 2;''"
    "normalizeCode (lit ''let c = 3;'') = lit ''let c = 3;''"
    "normalizeCode (lit ''let d = 4;'') = lit ''let d = 4;''"
    "normalizeCode (lit ''let e = 5;'') = lit ''let e = 5;''"
    using five_lines_each_normalized by simp_all
  have three: "filter (\<lambda>l. sublist (normalizeCode l) (normalizeCode three_of_five)) ?lines
      = [lit ''let a = 1;'', lit ''let b = 2;'', lit ''let c = 3;'']"
    unfolding three_of_five_normalized str_includes_sublist[symmetric]
    by (simp add: each) (simp add: string_defs)
  have two: "filter (\<lambda>l. sublist (normalizeCode l) (normalizeCode two_of_five)) ?lines
      = [lit ''let a = 1;'', lit ''let b = 2;'']"
    unfolding two_of_five_normalized str_includes_sublist[symmetric]
    by (simp add: each) (simp add: string_defs)
  have whole3: "\<not> sublist (normalizeCode five_lines) (normalizeCode three_of_five)"
    unfolding five_lines_normalized three_of_five_normalized str_includes_sublist[symmetric]
    by (simp add: string_defs)
  have whole2: "\<not> sublist (normalizeCode five_lines) (normalizeCode two_of_five)"
    unfolding five_lines_normalized two_of_five_normalized str_includes_sublist[symmetric]
    by (simp add: string_defs)
  note a = code_block_found_by_line_ratio_or_verbatim
      [where md = three_of_five and code = five_lines and st = noChecks
         and art = article_0_0_2 and wc = emptyContent, unfolded ls three]
  note b = code_block_found_by_line_ratio_or_verbatim
      [where md = two_of_five and code = five_lines and st = noChecks
         and art = article_0_0_2 and wc = emptyContent, unfolded ls two]
  have sig: "significantLines five_lines = ?lines"
    using a by (rule conjunct1)
  have m3: "matchingLines (normalizeCode three_of_five) ?lines
      = [lit ''let a = 1;'', lit ''let b = 2;'', lit ''let c = 3;'']"
    using a [THEN conjunct2] by (rule conjunct1)
  have m2: "matchingLines (normalizeCode two_of_five) ?lines
      = [lit ''let a = 1;'', lit ''let b = 2;'']"
    using b [THEN conjunct2] by (rule conjunct1)
  have f3: "codeBlockFound (normalizeCode three_of_five) five_lines"
    using a [THEN conjunct2, THEN conjunct2, THEN conjunct1] by simp
  have f2: "\<not> codeBlockFound (normalizeCode two_of_five) five_lines"
    using b [THEN conjunct2, THEN conjunct2, THEN conjunct1] whole2 by simp
  from sig m3 m2 f3 f2 show ?thesis by simp
qed

text \<open>
  The filter of the code is not the filter as the specification words it. The code knows
  the eight characters \<^verbatim>\<open>{}[](),;\<close> only: two rules of other punctuation count as
  significant lines, so a block of two rules and one line of text has one matching line
  of three and is reported missing, where one of one would be found. And the code trims
  the lines first: an indented statement of three characters is dropped, so that a block
  without any other line is found in an empty markdown, where the untrimmed line would
  count and be missing.
\<close>

theorem code_block_filter_counterexample:
  "stated_significantLines ruled_block = [lit ''foo bar'']
   \<and> stated_codeBlockPresent (normalizeCode (lit ''foo bar'')) ruled_block
   \<and> significantLines ruled_block = [lit ''===='', lit ''----'', lit ''foo bar'']
   \<and> \<not> codeBlockFound (normalizeCode (lit ''foo bar'')) ruled_block
   \<and> stated_significantLines indented_block = [lit ''    x++'']
   \<and> \<not> stated_codeBlockPresent (normalizeCode []) indented_block
   \<and> significantLines indented_block = []
   \<and> codeBlockFound (normalizeCode []) indented_block"
proof -
  have md: "normalizeCode (lit ''foo bar'') = lit ''foo bar''" "normalizeCode [] = []"
    by (simp_all add: string_defs normalizeCode_def)
  have n1: "normalizeCode ruled_block = lit ''==== ---- foo bar''"
    by (simp add: ruled_block_def string_defs normalizeCode_def)
  have n2: "normalizeCode indented_block = lit ''{ x++ }''"
    by (simp add: indented_block_def string_defs normalizeCode_def)
  have l1: "normalizeCode (lit ''===='') = lit ''====''" "normalizeCode (lit ''----'') = lit ''----''"
    "normalizeCode (lit ''    x++'') = lit ''x++''"
    by (simp_all add: string_defs normalizeCode_def)
  have s1: "stated_significantLines ruled_block = [lit ''foo bar'']"
    by (simp add: stated_significantLines_def ruled_block_def isPunctuation_def string_defs)
  have c1: "significantLines ruled_block = [lit ''===='', lit ''----'', lit ''foo bar'']"
    by (simp add: significantLines_def onlyBrackets_def ruled_block_def string_defs)
  have s2: "stated_significantLines indented_block = [lit ''    x++'']"
    by (simp add: stated_significantLines_def indented_block_def isPunctuation_def string_defs)
  have c2: "significantLines indented_block = []"
    by (simp add: significantLines_def onlyBrackets_def indented_block_def string_defs)
  have p1: "stated_codeBlockPresent (lit ''foo bar'') ruled_block"
    unfolding stated_codeBlockPresent_def Let_def s1 by (simp add: md) (simp add: string_defs)
  have f1: "\<not> codeBlockFound (lit ''foo bar'') ruled_block"
    unfolding codeBlockFound_def lineMatchRate_def matchingLines_def Let_def c1 n1
    by (simp add: l1 md) (simp add: string_defs)
  have p2: "\<not> stated_codeBlockPresent [] indented_block"
    unfolding stated_codeBlockPresent_def Let_def s2 n2 by (simp add: l1) (simp add: string_defs)
  have f2: "codeBlockFound [] indented_block"
    unfolding codeBlockFound_def lineMatchRate_def Let_def c2 by simp
  from s1 c1 s2 c2 p1 f1 p2 f2 show ?thesis
    unfolding md by blast
qed

subsection \<open>Items without words and short items\<close>

text \<open>
  C7, as the code has it. For a paragraph or list item with no qualifying word the match
  rate is 0, and the item is found exactly when the substring test on its first units
  holds. For an item whose normalized text is at most 20 units long (15 for a list item)
  the substring test is off, and the item is found exactly when its word match rate is at
  least 0.6: no test of exact containment takes its place. A short item with no qualifying
  word is therefore never found.
\<close>

theorem wordless_or_short_item:
  fixes nm p :: jsstring
  defines "n \<equiv> normalizeText p"
  shows "(qualifyingWords n = [] \<longrightarrow>
            wordMatchRate nm n = 0
            \<and> (paragraphFound nm p \<longleftrightarrow> substringMatch 20 50 nm n)
            \<and> (listItemFound nm p \<longleftrightarrow> substringMatch 15 40 nm n))
   \<and> (length n \<le> 20 \<longrightarrow>
            \<not> substringMatch 20 50 nm n \<and> (paragraphFound nm p \<longleftrightarrow> 6 / 10 \<le> wordMatchRate nm n))
   \<and> (length n \<le> 15 \<longrightarrow>
            \<not> substringMatch 15 40 nm n \<and> (listItemFound nm p \<longleftrightarrow> 6 / 10 \<le> wordMatchRate nm n))
   \<and> (qualifyingWords n = [] \<and> length n \<le> 20 \<longrightarrow> \<not> paragraphFound nm p)
   \<and> (qualifyingWords n = [] \<and> length n \<le> 15 \<longrightarrow> \<not> listItemFound nm p)"
proof -
  have par: "paragraphFound nm p \<longleftrightarrow> 6 / 10 \<le> wordMatchRate nm n \<or> substringMatch 20 50 nm n"
    unfolding paragraphFound_def Let_def n_def ..
  have item: "listItemFound nm p \<longleftrightarrow> 6 / 10 \<le> wordMatchRate nm n \<or> substringMatch 15 40 nm n"
    unfolding listItemFound_def Let_def n_def ..
  have zero: "wordMatchRate nm n = 0" and low: "\<not> 6 / 10 \<le> wordMatchRate nm n"
    if "qualifyingWords n = []"
    using that by (simp_all add: wordMatchRate_def)
  have off: "\<not> substringMatch lo hi nm n" if "length n \<le> lo" for lo hi
    using that by (simp add: substringMatch_def)
  from par item zero low off [of 20 50] off [of 15 40] show ?thesis
    by blast
qed

theorem wordless_or_short_item_witness:
  "\<not> paragraphFound (lit ''x a b c d e f y'') short_words
   \<and> \<not> listItemFound (lit ''x a b c d e f y'') short_words
   \<and> length (normalizeText short_words) = 11"
proof -
  have n: "normalizeText short_words = lit ''a b c d e f''"
    by (simp add: short_words_def string_defs normalizeText_def)
  have none: "qualifyingWords (normalizeText short_words) = []"
    unfolding n by (simp add: qualifyingWords_def string_defs)
  have len: "length (normalizeText short_words) = 11"
    unfolding n by (simp add: lit_def)
  from wordless_or_short_item [where p = short_words and nm = "lit ''x a b c d e f y''"] none len
  show ?thesis by simp
qed

text \<open>
  The claim as the specification states it fails in both directions. A short paragraph is
  found through its words although the markdown does not contain it, and a short paragraph
  that the markdown contains word for word is reported missing.
\<close>

theorem short_item_exact_containment_counterexample:
  "length (normalizeText three_words) < 20
   \<and> paragraphFound (lit ''gamma beta alpha'') three_words
   \<and> \<not> str_includes (lit ''gamma beta alpha'') (normalizeText three_words)
   \<and> length (normalizeText short_words) < 20
   \<and> str_includes (lit ''x a b c d e f y'') (normalizeText short_words)
   \<and> \<not> paragraphFound (lit ''x a b c d e f y'') short_words"
proof -
  have n3: "normalizeText three_words = lit ''alpha beta gamma''"
    by (simp add: three_words_def string_defs normalizeText_def)
  have n1: "normalizeText short_words = lit ''a b c d e f''"
    by (simp add: short_words_def string_defs normalizeText_def)
  have a: "length (normalizeText three_words) < 20" "length (normalizeText short_words) < 20"
    unfolding n3 n1 by (simp_all add: lit_def)
  have b: "paragraphFound (lit ''gamma beta alpha'') three_words"
    unfolding paragraphFound_def Let_def n3
    by (simp add: wordMatchRate_def qualifyingWords_def matchingWords_def substringMatch_def
        string_defs)
  have c: "\<not> str_includes (lit ''gamma beta alpha'') (normalizeText three_words)"
    unfolding n3 by (simp add: string_defs)
  have d: "str_includes (lit ''x a b c d e f y'') (normalizeText short_words)"
    unfolding n1 by (simp add: string_defs)
  have e: "\<not> paragraphFound (lit ''x a b c d e f y'') short_words"
    unfolding paragraphFound_def Let_def n1
    by (simp add: wordMatchRate_def qualifyingWords_def matchingWords_def substringMatch_def
        string_defs)
  from a b c d e show ?thesis by blast
qed

subsection \<open>The report\<close>

lemma passed_verify:
  "passedChecks (verifyMarkdownContent art wc md) = passedChecks (runChecks art wc md)"
  by (simp add: verifyMarkdownContent_def Let_def)

lemma passRate_verify:
  "passRate (verifyMarkdownContent art wc md) =
     (if 0 < totalChecks (runChecks art wc md)
      then of_nat (passedChecks (runChecks art wc md)) / of_nat (totalChecks (runChecks art wc md))
      else 0)"
  by (simp add: verifyMarkdownContent_def Let_def)

lemma formulas_runChecks: "missing_formulas (missing (runChecks art wc md)) = []"
  by (simp add: missing_runChecks)

text \<open>
  C1, as the code has it. The pass rate is the quotient of the passed checks by the checks
  performed when a check was performed, and 0 when none was, where the quotient is not a
  number. It lies between 0 and 1. The run has missing content exactly when the title, a
  heading, a paragraph, a code block, a list item or a figure image was recorded missing,
  and it succeeds exactly when nothing was recorded missing or the pass rate is at least
  0.85.
\<close>

theorem report_rate_and_verdict:
  fixes art :: article and wc :: webContent and md :: jsstring
  defines "r \<equiv> verifyMarkdownContent art wc md"
  shows "(0 < totalChecks r \<longrightarrow> quotient (passedChecks r) (totalChecks r) = Some (passRate r))
   \<and> (totalChecks r = 0 \<longrightarrow>
        passRate r = 0 \<and> quotient (passedChecks r) (totalChecks r) = None)
   \<and> passedChecks r \<le> totalChecks r \<and> 0 \<le> passRate r \<and> passRate r \<le> 1
   \<and> (hasMissingContent r \<longleftrightarrow>
        missing_title (missing r) \<or> missing_headings (missing r) \<noteq> []
        \<or> missing_paragraphs (missing r) \<noteq> [] \<or> missing_codeBlocks (missing r) \<noteq> []
        \<or> missing_listItems (missing r) \<noteq> [] \<or> 0 < missing_images (missing r))
   \<and> (success r \<longleftrightarrow> \<not> hasMissingContent r \<or> 85 / 100 \<le> passRate r)"
proof -
  let ?st = "runChecks art wc md"
  have t: "totalChecks r = totalChecks ?st" and p: "passedChecks r = passedChecks ?st"
    and m: "missing r = missing ?st"
    by (simp_all add: r_def total_verify passed_verify missing_verify)
  have rate: "passRate r =
      (if 0 < totalChecks r then of_nat (passedChecks r) / of_nat (totalChecks r) else 0)"
    by (simp add: r_def passRate_verify total_verify passed_verify)
  have le: "passedChecks r \<le> totalChecks r"
    unfolding t p by (rule passed_le_total)
  have pos: "quotient (passedChecks r) (totalChecks r) = Some (passRate r)" if "0 < totalChecks r"
    using that by (simp add: quotient_def rate)
  have none: "passRate r = 0 \<and> quotient (passedChecks r) (totalChecks r) = None"
    if "totalChecks r = 0"
    using that by (simp add: quotient_def rate)
  have lo: "0 \<le> passRate r"
    by (simp add: rate)
  have hi: "passRate r \<le> 1"
  proof (cases "0 < totalChecks r")
    case True
    with le have "(of_nat (passedChecks r) :: rat) / of_nat (totalChecks r) \<le> 1"
      by (simp add: divide_le_eq_1)
    with True show ?thesis by (simp add: rate)
  next
    case False
    then show ?thesis by (simp add: rate)
  qed
  have "hasMissingContent r = anyMissing (missing ?st)"
    by (simp add: r_def verifyMarkdownContent_def Let_def)
  then have has: "hasMissingContent r \<longleftrightarrow>
        missing_title (missing r) \<or> missing_headings (missing r) \<noteq> []
        \<or> missing_paragraphs (missing r) \<noteq> [] \<or> missing_codeBlocks (missing r) \<noteq> []
        \<or> missing_listItems (missing r) \<noteq> [] \<or> 0 < missing_images (missing r)"
    unfolding m by (auto simp: anyMissing_def formulas_runChecks)
  have verdict: "success r \<longleftrightarrow> \<not> hasMissingContent r \<or> 85 / 100 \<le> passRate r"
    unfolding r_def verifyMarkdownContent_def Let_def by (simp only: report.simps checks.simps)
  from pos none le lo hi has verdict show ?thesis by blast
qed

lemma fox_run:
  "runChecks article_without_figures fox_page fox_markdown =
     noChecks\<lparr>totalChecks := 4, passedChecks := 4\<rparr>"
  by (simp add: article_without_figures_def fox_page_def emptyContent_def fox_markdown_def
      string_defs normalize_defs check_defs image_defs run_defs)

theorem report_rate_and_verdict_witness:
  "totalChecks (verifyMarkdownContent article_without_figures fox_page fox_markdown) = 4
   \<and> passRate (verifyMarkdownContent article_without_figures fox_page fox_markdown) = 1
   \<and> success (verifyMarkdownContent article_without_figures fox_page fox_markdown)"
proof -
  let ?r = "verifyMarkdownContent article_without_figures fox_page fox_markdown"
  have t: "totalChecks ?r = 4" and p: "passedChecks ?r = 4"
    by (simp_all add: total_verify passed_verify fox_run)
  from report_rate_and_verdict [of article_without_figures fox_page fox_markdown] t p
  have "passRate ?r = 1" and "success ?r"
    by (simp_all add: quotient_def)
  with t show ?thesis by blast
qed

text \<open>
  The pass rate is not the quotient for every run: a run that performs no check reports the
  rate 0, and the quotient of 0 by 0 is not a number.
\<close>

theorem pass_rate_without_checks_counterexample:
  "totalChecks (verifyMarkdownContent article_without_figures emptyContent []) = 0
   \<and> passedChecks (verifyMarkdownContent article_without_figures emptyContent []) = 0
   \<and> passRate (verifyMarkdownContent article_without_figures emptyContent []) = 0
   \<and> quotient (passedChecks (verifyMarkdownContent article_without_figures emptyContent []))
        (totalChecks (verifyMarkdownContent article_without_figures emptyContent []))
      \<noteq> Some (passRate (verifyMarkdownContent article_without_figures emptyContent []))"
proof -
  have run: "runChecks article_without_figures emptyContent [] = noChecks"
    by (simp add: article_without_figures_def emptyContent_def string_defs normalize_defs
        check_defs image_defs run_defs)
  show ?thesis
    by (simp add: total_verify passed_verify passRate_verify run noChecks_def quotient_def)
qed

subsection \<open>Figure images\<close>

text \<open>
  C6, as the code has it. For an article with local images that declares \<open>n > 0\<close> expected
  figures, one check is made. It passes exactly when the figure pattern has at least \<open>n\<close>
  matches in the markdown, every match counting, whether or not the same reference was
  matched before; when it fails, the number of missing images is \<open>n\<close> less the number of
  matches. With 13 expected figures and 12 matches the check fails and one image is
  missing. An article with local images and no expected figures has no image check. For an
  article without local images the figure pattern is not used, whatever number of figures
  it declares: one check passes when the markdown has an external image reference, and a
  failure records nothing.
\<close>

theorem figure_check_counts_matches:
  fixes art :: article and md :: jsstring and st :: checks and n :: nat
  defines "found \<equiv> length (matchAll figurePattern md)"
  defines "st' \<equiv> checkImages art md st"
  shows "(hasLocalImages art \<and> expectedFigures art = Some n \<and> 0 < n \<longrightarrow>
            totalChecks st' = totalChecks st + 1
          \<and> (n \<le> found \<longrightarrow> passedChecks st' = passedChecks st + 1 \<and> missing st' = missing st)
          \<and> (found < n \<longrightarrow>
                passedChecks st' = passedChecks st \<and> missing_images (missing st') = n - found))
   \<and> (hasLocalImages art \<and> expectedFigures art = Some 13 \<and> found = 12 \<longrightarrow>
            passedChecks st' = passedChecks st \<and> missing_images (missing st') = 1)
   \<and> (hasLocalImages art \<and> (expectedFigures art = None \<or> expectedFigures art = Some 0) \<longrightarrow>
            st' = st)
   \<and> (\<not> hasLocalImages art \<longrightarrow>
            totalChecks st' = totalChecks st + 1
          \<and> passedChecks st' = passedChecks st + (if matchAll imagePattern md = [] then 0 else 1)
          \<and> missing st' = missing st)"
proof -
  have local: "totalChecks st' = totalChecks st + 1
          \<and> (k \<le> found \<longrightarrow> passedChecks st' = passedChecks st + 1 \<and> missing st' = missing st)
          \<and> (found < k \<longrightarrow>
                passedChecks st' = passedChecks st \<and> missing_images (missing st') = k - found)"
    if "hasLocalImages art" and "expectedFigures art = Some k" and "0 < k" for k
    using that
    by (simp add: st'_def found_def total_checkImages passed_checkImages missing_checkImages
        figureCount_def)
  have thirteen: "passedChecks st' = passedChecks st \<and> missing_images (missing st') = 1"
    if "hasLocalImages art" and "expectedFigures art = Some 13" and "found = 12"
    using local [of 13] that by simp
  have skipped: "st' = st"
    if "hasLocalImages art" and "expectedFigures art = None \<or> expectedFigures art = Some 0"
    using that by (auto simp: st'_def checkImages_def figureCount_def)
  have external: "totalChecks st' = totalChecks st + 1
          \<and> passedChecks st' = passedChecks st + (if matchAll imagePattern md = [] then 0 else 1)
          \<and> missing st' = missing st"
    if "\<not> hasLocalImages art"
    using that
    by (simp add: st'_def total_checkImages passed_checkImages missing_checkImages)
  have c1: "hasLocalImages art \<and> expectedFigures art = Some n \<and> 0 < n \<longrightarrow>
            totalChecks st' = totalChecks st + 1
          \<and> (n \<le> found \<longrightarrow> passedChecks st' = passedChecks st + 1 \<and> missing st' = missing st)
          \<and> (found < n \<longrightarrow>
                passedChecks st' = passedChecks st \<and> missing_images (missing st') = n - found)"
    using local [of n] by (intro impI) (elim conjE)
  have c2: "hasLocalImages art \<and> expectedFigures art = Some 13 \<and> found = 12 \<longrightarrow>
            passedChecks st' = passedChecks st \<and> missing_images (missing st') = 1"
    using thirteen by (intro impI) (elim conjE)
  have c3: "hasLocalImages art \<and> (expectedFigures art = None \<or> expectedFigures art = Some 0) \<longrightarrow>
            st' = st"
    using skipped by blast
  have c4: "\<not> hasLocalImages art \<longrightarrow>
            totalChecks st' = totalChecks st + 1
          \<and> passedChecks st' = passedChecks st + (if matchAll imagePattern md = [] then 0 else 1)
          \<and> missing st' = missing st"
    using external by (intro impI)
  from c1 c2 c3 c4 show ?thesis by (intro conjI)
qed

lemma twelve_figures_found: "length (matchAll figurePattern twelve_figures) = 12"
  by (simp add: twelve_figures_def figureRef_def string_defs image_defs)

theorem figure_check_counts_matches_witness:
  "totalChecks (checkImages article_0_0_2 twelve_figures noChecks) = 1
   \<and> passedChecks (checkImages article_0_0_2 twelve_figures noChecks) = 0
   \<and> missing_images (missing (checkImages article_0_0_2 twelve_figures noChecks)) = 1"
proof -
  have a: "hasLocalImages article_0_0_2" and b: "expectedFigures article_0_0_2 = Some 13"
    by (simp_all add: article_0_0_2_def)
  from figure_check_counts_matches [of article_0_0_2 13 twelve_figures noChecks]
    a b twelve_figures_found
  show ?thesis by (simp add: noChecks_def)
qed

text \<open>
  The claim as the specification states it fails in two places. The matches are not
  required to be distinct: two copies of the reference to figure 1 satisfy an article that
  expects two figures. And a declared figure count brings no figure check for an article
  without local images: with 13 figures expected and an empty markdown one check is made
  and fails, no image is recorded missing and the run succeeds.
\<close>

theorem figure_check_counterexample:
  "length (remdups (matchAll figurePattern same_figure_twice)) = 1
   \<and> passedChecks (checkImages article_two_figures same_figure_twice noChecks) = 1
   \<and> missing_images (missing (checkImages article_two_figures same_figure_twice noChecks)) = 0
   \<and> totalChecks (verifyMarkdownContent article_external emptyContent []) = 1
   \<and> passedChecks (verifyMarkdownContent article_external emptyContent []) = 0
   \<and> missing_images (missing (verifyMarkdownContent article_external emptyContent [])) = 0
   \<and> success (verifyMarkdownContent article_external emptyContent [])"
proof -
  have twice: "matchAll figurePattern same_figure_twice =
      [lit ''![Figure 1](images/figure-1.png)'', lit ''![Figure 1](images/figure-1.png)'']"
    by (simp add: same_figure_twice_def figureRef_def string_defs image_defs)
  have one: "length (remdups (matchAll figurePattern same_figure_twice)) = 1"
    unfolding twice by simp
  have two: "passedChecks (checkImages article_two_figures same_figure_twice noChecks) = 1
      \<and> missing_images (missing (checkImages article_two_figures same_figure_twice noChecks)) = 0"
    by (simp add: passed_checkImages missing_checkImages twice article_two_figures_def
        figureCount_def noChecks_def)
  have ext: "verifyMarkdownContent article_external emptyContent [] =
      \<lparr>totalChecks = 1, passedChecks = 0, missing = missing noChecks, passRate = 0,
       hasMissingContent = False, success = True\<rparr>"
    by (simp add: article_external_def emptyContent_def string_defs normalize_defs
        check_defs image_defs run_defs)
  from one two show ?thesis
    by (simp add: ext noChecks_def)
qed

subsection \<open>Normalization and length\<close>

lemma weightedLength_simps [simp]:
  "weightedLength [] = 0"
  "weightedLength (c # cs) = weight c + weightedLength cs"
  "weightedLength (xs @ ys) = weightedLength xs + weightedLength ys"
  "weightedLength (rev xs) = weightedLength xs"
  by (simp_all add: weightedLength_def rev_map[symmetric] sum_list_rev)

lemma weight_pos: "1 \<le> weight c"
  by (simp add: weight_def)

lemma length_le_weightedLength: "length s \<le> weightedLength s"
proof (induction s)
  case Nil
  show ?case by simp
next
  case (Cons c cs)
  with weight_pos [of c] show ?case by simp
qed

lemma weightedLength_growing:
  "weightedLength s = length s + length (filter growing s)"
  by (induction s) (simp_all add: weight_def growing_def)

lemma weightedLength_take_drop:
  "weightedLength (take k s) + weightedLength (drop k s) = weightedLength s"
  using weightedLength_simps(3) [of "take k s" "drop k s"] by simp

lemma weightedLength_dropWhile: "weightedLength (dropWhile P s) \<le> weightedLength s"
  by (induction s) simp_all

lemma weightedLength_trim:
  "weightedLength s \<le> b \<Longrightarrow> weightedLength (trim s) \<le> b"
  using weightedLength_dropWhile [of isSpace "rev (dropWhile isSpace s)"]
    weightedLength_dropWhile [of isSpace s]
  by (simp add: trim_def)

lemma weightedLength_collapseFrom: "weightedLength (collapseFrom inRun s) \<le> weightedLength s"
proof (induction s arbitrary: inRun)
  case Nil
  show ?case by simp
next
  case (Cons c cs)
  have w: "weight 0x20 = 1"
    by (simp add: weight_def)
  from Cons [of True] Cons [of False] weight_pos [of c] w show ?case
    by (cases inRun) (simp_all add: le_SucI)
qed

lemma weightedLength_collapseSpaces:
  "weightedLength s \<le> b \<Longrightarrow> weightedLength (collapseSpaces s) \<le> b"
  unfolding collapseSpaces_def using weightedLength_collapseFrom [of False s] by simp

lemma weightedLength_replaceClass:
  assumes "\<And>c. cls c \<Longrightarrow> weightedLength rep \<le> weight c" and "weightedLength s \<le> b"
  shows "weightedLength (replaceClass cls rep s) \<le> b"
proof -
  have "weightedLength (replaceClass cls rep s) \<le> weightedLength s"
  proof (induction s)
    case Nil
    show ?case by (simp add: replaceClass_def)
  next
    case (Cons c cs)
    then have rest: "weightedLength (replaceClass cls rep cs) \<le> weightedLength cs" .
    show ?case
    proof (cases "cls c")
      case True
      then have "replaceClass cls rep (c # cs) = rep @ replaceClass cls rep cs"
        by (simp add: replaceClass_def)
      with rest assms(1) [OF True] show ?thesis by simp
    next
      case False
      then have "replaceClass cls rep (c # cs) = c # replaceClass cls rep cs"
        by (simp add: replaceClass_def)
      with rest show ?thesis by simp
    qed
  qed
  with assms(2) show ?thesis by simp
qed

lemma startsWith_length: "startsWith ci pat s \<Longrightarrow> length pat \<le> length s"
proof (induction pat arbitrary: s)
  case Nil
  show ?case by simp
next
  case (Cons p ps)
  then show ?case by (cases s) simp_all
qed

lemma weightedLength_replaceAll:
  assumes "weightedLength rep \<le> length pat" and "weightedLength s \<le> b"
  shows "weightedLength (replaceAll ci pat rep s) \<le> b"
proof -
  have "weightedLength (replaceAll ci pat rep s) \<le> weightedLength s"
    using assms(1)
  proof (induction ci pat rep s rule: replaceAll.induct)
    case (1 ci rep s)
    show ?case by simp
  next
    case (2 ci p ps rep)
    show ?case by simp
  next
    case (3 ci p ps rep c cs)
    show ?case
    proof (cases "startsWith ci (p # ps) (c # cs)")
      case True
      then have "length ps \<le> length cs"
        using startsWith_length [of ci "p # ps" "c # cs"] by simp
      then have "length (p # ps) \<le> weightedLength (c # take (length ps) cs)"
        using length_le_weightedLength [of "c # take (length ps) cs"] by simp
      with 3(3) have "weightedLength rep \<le> weight c + weightedLength (take (length ps) cs)"
        by simp
      moreover have "weightedLength (replaceAll ci (p # ps) rep (drop (length ps) cs))
          \<le> weightedLength (drop (length ps) cs)"
        using 3(1) [OF True 3(3)] .
      ultimately have "weightedLength (rep @ replaceAll ci (p # ps) rep (drop (length ps) cs))
          \<le> weight c + (weightedLength (take (length ps) cs) + weightedLength (drop (length ps) cs))"
        by simp
      moreover have "replaceAll ci (p # ps) rep (c # cs)
          = rep @ replaceAll ci (p # ps) rep (drop (length ps) cs)"
        using True by (simp del: startsWith.simps)
      ultimately show ?thesis
        unfolding weightedLength_take_drop by simp
    next
      case False
      then have "replaceAll ci (p # ps) rep (c # cs) = c # replaceAll ci (p # ps) rep cs"
        by (simp del: startsWith.simps)
      with 3(2) [OF False 3(3)] show ?thesis by simp
    qed
  qed
  with assms(2) show ?thesis by simp
qed

lemma length_lowerUnit: "length (lowerUnit c) \<le> weight c"
  by (simp add: lowerUnit_def weight_def)

lemma length_toLowerCase:
  "weightedLength s \<le> b \<Longrightarrow> length (toLowerCase s) \<le> b"
proof -
  assume b: "weightedLength s \<le> b"
  have "length (toLowerCase s) \<le> weightedLength s"
  proof (induction s)
    case Nil
    show ?case by (simp add: toLowerCase_def)
  next
    case (Cons c cs)
    with length_lowerUnit [of c] show ?case by (simp add: toLowerCase_def)
  qed
  with b show ?thesis by simp
qed

lemma length_normalizeText: "length (normalizeText s) \<le> weightedLength s"
  unfolding normalizeText_def Let_def
  by (intro length_toLowerCase weightedLength_replaceAll weightedLength_replaceClass
      weightedLength_collapseSpaces weightedLength_trim)
     (auto simp: lit_def backslash_def weight_def)

text \<open>
  C8, as the code has it. The normalized text is longer than the input by at most the
  number of arrows U+2192 and U+21A6, each replaced by the two characters \<^verbatim>\<open>->\<close>, and of
  U+0130, whose lower case has two units. It is therefore never longer than the input when
  the input has none of these three, and never more than twice as long.
\<close>

theorem normalized_length_bound:
  "length (normalizeText s) \<le> length s + length (filter growing s)
   \<and> ((\<forall>c \<in> set s. c \<noteq> 0x2192 \<and> c \<noteq> 0x21A6 \<and> c \<noteq> 0x130)
        \<longrightarrow> length (normalizeText s) \<le> length s)
   \<and> length (normalizeText s) \<le> 2 * length s"
proof -
  have bound: "length (normalizeText s) \<le> length s + length (filter growing s)"
    using length_normalizeText [of s] by (simp add: weightedLength_growing)
  have none: "length (normalizeText s) \<le> length s"
    if "\<forall>c \<in> set s. c \<noteq> 0x2192 \<and> c \<noteq> 0x21A6 \<and> c \<noteq> 0x130"
  proof -
    from that have "filter growing s = []"
      by (auto simp: filter_empty_conv growing_def)
    with bound show ?thesis by simp
  qed
  have "length (filter growing s) \<le> length s"
    by (rule length_filter_le)
  with bound have twice: "length (normalizeText s) \<le> 2 * length s"
    by linarith
  from bound none twice show ?thesis by blast
qed

theorem normalized_length_bound_witness:
  "length (normalizeText (lit ''  L  '' @ [0xD7] @ lit '' L $$ ^2 '')) \<le> 15
   \<and> length (normalizeText (lit ''a '' @ [0x2192] @ lit '' b'')) \<le> 6"
proof -
  let ?plain = "lit ''  L  '' @ [0xD7] @ lit '' L $$ ^2 ''"
  let ?arrow = "lit ''a '' @ [0x2192] @ lit '' b''"
  have a: "\<forall>c \<in> set ?plain. c \<noteq> 0x2192 \<and> c \<noteq> 0x21A6 \<and> c \<noteq> 0x130"
    by (simp add: lit_def)
  have la: "length ?plain = 15"
    by (simp add: lit_def)
  have lb: "length ?arrow + length (filter growing ?arrow) = 6"
    by (simp add: lit_def growing_def)
  from normalized_length_bound [of ?plain] a
  have "length (normalizeText ?plain) \<le> length ?plain"
    by blast
  then have first: "length (normalizeText ?plain) \<le> 15"
    unfolding la .
  from normalized_length_bound [of ?arrow]
  have "length (normalizeText ?arrow) \<le> length ?arrow + length (filter growing ?arrow)"
    by blast
  then have second: "length (normalizeText ?arrow) \<le> 6"
    unfolding lb .
  from first second show ?thesis by blast
qed

text \<open>
  The normalized text can be longer than the input: the arrow alone, one unit, becomes the
  two characters \<^verbatim>\<open>->\<close>.
\<close>

theorem normalization_lengthens_arrow_counterexample:
  "normalizeText [0x2192] = lit ''->''
   \<and> length [0x2192 :: jschar] < length (normalizeText [0x2192])"
proof -
  have "normalizeText [0x2192] = lit ''->''"
    by (simp add: string_defs normalizeText_def)
  then show ?thesis by (simp add: lit_def)
qed

subsection \<open>Normalizing twice\<close>

text \<open>
  A second pass of \<^verbatim>\<open>normalizeText\<close> starts from the output of the first. The first pass
  leaves only tidy units, and the lower case, which comes last, leaves no capital letter of
  Basic Latin; so in the second pass the classes and the dollar signs find nothing, and
  what remains of the chain is \<^verbatim>\<open>trim\<close>, the collapse of white space and the eight
  replacements of escapes. None of these lengthens a string, and each of them shortens a
  string that it changes; so the second pass gives back its input exactly when none of
  them has anything to do. Of the lower case the proofs use the three properties of
  \<open>lowering\<close> and nothing else.
\<close>

lemma replaceClass_Cons:
  "replaceClass cls rep (c # cs) = (if cls c then rep else [c]) @ replaceClass cls rep cs"
  by (simp add: replaceClass_def)

lemma replaceClass_Nil: "replaceClass cls rep [] = []"
  by (simp add: replaceClass_def)

lemma replaceClass_absent: "\<forall>c \<in> set t. \<not> cls c \<Longrightarrow> replaceClass cls rep t = t"
  by (induction t) (simp_all add: replaceClass_Cons replaceClass_Nil)

lemma replaceClass_self: "replaceClass (\<lambda>c. c = q) [q] t = t"
  by (induction t) (simp_all add: replaceClass_Cons replaceClass_Nil)

lemma replaceAll_absent:
  "\<forall>c \<in> set t. \<not> sameUnit ci p c \<Longrightarrow> replaceAll ci (p # ps) rep t = t"
  by (induction t) simp_all

lemma set_collapseFrom:
  "c \<in> set (collapseFrom inRun x) \<Longrightarrow> c = 0x20 \<or> (c \<in> set x \<and> \<not> isSpace c)"
  by (induction x arbitrary: inRun) (auto split: if_splits)

lemma set_trim: "set (trim s) \<subseteq> set s"
proof -
  have "set (trim s) \<subseteq> set (dropWhile isSpace s)"
    unfolding trim_def using set_dropWhileD [of _ isSpace "rev (dropWhile isSpace s)"] by auto
  also have "\<dots> \<subseteq> set s"
    using set_dropWhileD [of _ isSpace s] by auto
  finally show ?thesis .
qed

lemma edgesClean_trim: "edgesClean (trim s)"
proof -
  let ?y = "dropWhile isSpace s"
  let ?z = "dropWhile isSpace (rev ?y)"
  show ?thesis
  proof (cases "?z = []")
    case True
    then show ?thesis by (simp add: edgesClean_def trim_def)
  next
    case False
    then have hz: "\<not> isSpace (hd ?z)"
      by (rule hd_dropWhile)
    have y: "?y \<noteq> []"
    proof
      assume "?y = []"
      then have "?z = []"
        by (simp only: rev.simps dropWhile.simps)
      with False show False ..
    qed
    then have hy: "\<not> isSpace (hd ?y)"
      by (rule hd_dropWhile)
    have "rev ?y = takeWhile isSpace (rev ?y) @ ?z"
      by simp
    with False have "last (rev ?y) = last ?z"
      by (metis last_appendR)
    with y have lz: "last ?z = hd ?y"
      by (simp add: last_rev)
    from False have "hd (rev ?z) = last ?z" and "last (rev ?z) = hd ?z"
      by (simp_all add: hd_rev last_rev)
    with hz hy lz False show ?thesis
      by (simp add: edgesClean_def trim_def)
  qed
qed

lemma trim_edgesClean: "edgesClean x \<Longrightarrow> trim x = x"
proof (cases "x = []")
  case True
  then show ?thesis by (simp add: trim_def)
next
  case False
  assume "edgesClean x"
  with False have h: "\<not> isSpace (hd x)" and l: "\<not> isSpace (last x)"
    by (simp_all add: edgesClean_def)
  from False h have a: "dropWhile isSpace x = x"
    by (cases x) simp_all
  from False l have "\<not> isSpace (hd (rev x))"
    by (simp add: hd_rev)
  with False have b: "dropWhile isSpace (rev x) = rev x"
    by (cases "rev x") simp_all
  show ?thesis
    by (simp add: trim_def a b)
qed

lemma lowerUnit_fixed:
  "c < 0x41 \<or> (0x5A < c \<and> c < 0xC0) \<or> c = 0xD7 \<or> (0xDE < c \<and> c < 0x130)
     \<or> (0x130 < c \<and> c < 0x400) \<or> 0x42F < c \<Longrightarrow> lowerUnit c = [c]"
  unfolding lowerUnit_def by (elim disjE) simp_all

lemma isSpace_cases: "isSpace c \<Longrightarrow> c \<le> 0x20 \<or> c = 0xA0 \<or> 0x1680 \<le> c"
  unfolding isSpace_def by (elim disjE insertE emptyE conjE) simp_all

lemma lowerUnit_range:
  "d \<in> set (lowerUnit c) \<Longrightarrow>
     (d = c \<and> lowerUnit c = [c]) \<or> (0x61 \<le> d \<and> d \<le> 0x7A) \<or> (0xE0 \<le> d \<and> d \<le> 0xFE)
     \<or> d = 0x307 \<or> (0x430 \<le> d \<and> d \<le> 0x45F)"
  unfolding lowerUnit_def by (simp split: if_splits) linarith+

lemma not_space_between: "0x20 < d \<Longrightarrow> d < 0x1680 \<Longrightarrow> d \<noteq> 0xA0 \<Longrightarrow> \<not> isSpace d"
  using isSpace_cases [of d] by linarith

lemma normalizeText_normalizeWith: "normalizeText s = normalizeWith lowerUnit s"
  by (simp add: normalizeText_def normalizeWith_def unlowered_def toLowerCase_def Let_def)

lemma lowering_lowerUnit: "lowering lowerUnit"
proof -
  have a: "tidy d \<and> lowerUnit d = [d]" if "tidy c" and "d \<in> set (lowerUnit c)" for c d
    using lowerUnit_range [OF that(2)]
  proof (elim disjE conjE)
    assume "d = c" and "lowerUnit c = [c]"
    with that(1) show ?thesis by simp
  next
    assume r: "0x61 \<le> d" "d \<le> 0x7A"
    then have "\<not> isSpace d"
      by (intro not_space_between) linarith+
    moreover from r have "lowerUnit d = [d]"
      by (intro lowerUnit_fixed) linarith
    ultimately show ?thesis
      using r by (simp add: tidy_def)
  next
    assume r: "0xE0 \<le> d" "d \<le> 0xFE"
    then have "\<not> isSpace d"
      by (intro not_space_between) linarith+
    moreover from r have "lowerUnit d = [d]"
      by (intro lowerUnit_fixed) linarith
    ultimately show ?thesis
      using r by (simp add: tidy_def)
  next
    assume r: "d = 0x307"
    then have "\<not> isSpace d"
      by (intro not_space_between) linarith+
    moreover from r have "lowerUnit d = [d]"
      by (intro lowerUnit_fixed) linarith
    ultimately show ?thesis
      using r by (simp add: tidy_def)
  next
    assume r: "0x430 \<le> d" "d \<le> 0x45F"
    then have "\<not> isSpace d"
      by (intro not_space_between) linarith+
    moreover from r have "lowerUnit d = [d]"
      by (intro lowerUnit_fixed) linarith
    ultimately show ?thesis
      using r by (simp add: tidy_def)
  qed
  have b: "lowerUnit c \<noteq> [c]" if "0x41 \<le> c \<and> c \<le> 0x5A" for c
    using that by (simp add: lowerUnit_def)
  have c: "\<forall>c \<in> set written. lowerUnit c = [c]"
    by (simp add: written_def lowerUnit_def)
  from a b c show ?thesis
    unfolding lowering_def by blast
qed

lemma all_trim: "list_all Q x \<Longrightarrow> list_all Q (trim x)"
  using set_trim [of x] by (auto simp: list_all_iff)

lemma all_collapseSpaces:
  "Q 0x20 \<Longrightarrow> list_all (\<lambda>c. isSpace c \<or> Q c) x \<Longrightarrow> list_all Q (collapseSpaces x)"
  using set_collapseFrom [of _ False x] by (auto simp: list_all_iff collapseSpaces_def)

lemma all_replaceClass:
  "list_all Q rep \<Longrightarrow> list_all (\<lambda>c. cls c \<or> Q c) x \<Longrightarrow> list_all Q (replaceClass cls rep x)"
  by (induction x) (auto simp: replaceClass_Cons replaceClass_Nil)

lemma set_replaceAll:
  "d \<in> set (replaceAll ci pat rep x) \<Longrightarrow> d \<in> set x \<or> d \<in> set rep"
proof (induction ci pat rep x rule: replaceAll.induct)
  case (1 ci rep s)
  then show ?case by simp
next
  case (2 ci p ps rep)
  then show ?case by simp
next
  case (3 ci p ps rep c cs)
  show ?case
  proof (cases "startsWith ci (p # ps) (c # cs)")
    case True
    with 3(3) have "d \<in> set rep \<or> d \<in> set (replaceAll ci (p # ps) rep (drop (length ps) cs))"
      by (simp del: startsWith.simps)
    with 3(1) [OF True] have "d \<in> set rep \<or> d \<in> set (drop (length ps) cs)"
      by blast
    then show ?thesis
      using set_drop_subset [of "length ps" cs] by auto
  next
    case False
    with 3(3) have "d = c \<or> d \<in> set (replaceAll ci (p # ps) rep cs)"
      by (simp del: startsWith.simps)
    with 3(2) [OF False] show ?thesis by auto
  qed
qed

lemma all_replaceAll:
  "list_all Q rep \<Longrightarrow> list_all Q x \<Longrightarrow> list_all Q (replaceAll ci pat rep x)"
  using set_replaceAll [of _ ci pat rep x] by (auto simp: list_all_iff)

lemma all_remove_dollar:
  "list_all (\<lambda>c. c = 0x24 \<or> Q c) x \<Longrightarrow> list_all Q (replaceAll False (lit ''$'') [] x)"
  by (induction x) (auto simp: lit_def sameUnit_def)

lemma tidy_unlowered: "list_all tidy (unlowered s)"
  unfolding unlowered_def Let_def
  by (intro all_remove_dollar all_replaceAll all_replaceClass all_collapseSpaces all_trim)
     (auto simp: lit_def tidy_def list_all_iff isSpace_def)

lemma length_trim: "length (trim x) \<le> length x"
proof -
  have "length (trim x) \<le> length (dropWhile isSpace x)"
    unfolding trim_def using length_dropWhile_le [of isSpace "rev (dropWhile isSpace x)"] by simp
  also have "\<dots> \<le> length x"
    by (rule length_dropWhile_le)
  finally show ?thesis .
qed

lemma dropWhile_same_length: "length (dropWhile P x) = length x \<Longrightarrow> dropWhile P x = x"
proof (cases x)
  case Nil
  then show ?thesis by simp
next
  case (Cons c cs)
  assume eq: "length (dropWhile P x) = length x"
  show ?thesis
  proof (cases "P c")
    case True
    with Cons have "length (dropWhile P x) \<le> length cs"
      using length_dropWhile_le [of P cs] by simp
    with eq Cons show ?thesis by simp
  next
    case False
    with Cons show ?thesis by simp
  qed
qed

lemma trim_same_length: "length (trim x) = length x \<Longrightarrow> trim x = x"
proof -
  assume eq: "length (trim x) = length x"
  let ?y = "dropWhile isSpace x"
  have a: "length (trim x) \<le> length ?y"
    unfolding trim_def using length_dropWhile_le [of isSpace "rev ?y"] by simp
  have b: "length ?y \<le> length x"
    by (rule length_dropWhile_le)
  from a b eq have "length ?y = length x"
    by linarith
  then have y: "?y = x"
    by (rule dropWhile_same_length)
  from eq have "length (dropWhile isSpace (rev x)) = length (rev x)"
    by (simp add: trim_def y)
  then have "dropWhile isSpace (rev x) = rev x"
    by (rule dropWhile_same_length)
  then show ?thesis
    by (simp add: trim_def y)
qed

lemma length_collapseFrom: "length (collapseFrom inRun x) \<le> length x"
proof (induction x arbitrary: inRun)
  case Nil
  show ?case by simp
next
  case (Cons c cs)
  from Cons [of True] Cons [of False] show ?case
    by (simp add: le_SucI)
qed

lemma collapseFrom_same_length:
  assumes "\<forall>c \<in> set x. isSpace c \<longrightarrow> c = 0x20"
    and "length (collapseFrom inRun x) = length x"
  shows "collapseFrom inRun x = x"
  using assms
proof (induction x arbitrary: inRun)
  case Nil
  show ?case by simp
next
  case (Cons c cs)
  from Cons.prems(1) have rest: "\<forall>c \<in> set cs. isSpace c \<longrightarrow> c = 0x20"
    by simp
  show ?case
  proof (cases "isSpace c")
    case True
    with Cons.prems(1) have c: "c = 0x20" by simp
    show ?thesis
    proof (cases inRun)
      case True
      with \<open>isSpace c\<close> Cons.prems(2) length_collapseFrom [of True cs] show ?thesis
        by simp
    next
      case False
      with \<open>isSpace c\<close> Cons.prems(2) have "length (collapseFrom True cs) = length cs"
        by simp
      from Cons.IH [OF rest this] False \<open>isSpace c\<close> c show ?thesis
        by simp
    qed
  next
    case False
    with Cons.prems(2) have "length (collapseFrom False cs) = length cs"
      by simp
    from Cons.IH [OF rest this] False show ?thesis
      by simp
  qed
qed

lemma two_spaces: "lit ''  '' = [0x20, 0x20]"
  by (simp add: lit_def)

lemma double_space_Cons:
  "str_includes (c # cs) (lit ''  '') \<longleftrightarrow>
     (c = 0x20 \<and> cs \<noteq> [] \<and> hd cs = 0x20) \<or> str_includes cs (lit ''  '')"
proof (cases cs)
  case Nil
  show ?thesis
    unfolding Nil two_spaces by (simp add: sameUnit_def)
next
  case (Cons d ds)
  show ?thesis
    unfolding Cons two_spaces by (simp add: sameUnit_def eq_commute)
qed

lemma collapseFrom_True_differs: "collapseFrom True cs \<noteq> c # cs"
proof
  assume "collapseFrom True cs = c # cs"
  then have "length (collapseFrom True cs) = Suc (length cs)"
    by simp
  with length_collapseFrom [of True cs] show False
    by simp
qed

lemma collapseFrom_fixed:
  assumes "\<forall>c \<in> set x. isSpace c \<longrightarrow> c = 0x20"
  shows "collapseFrom inRun x = x \<longleftrightarrow>
     \<not> str_includes x (lit ''  '') \<and> (inRun \<longrightarrow> x = [] \<or> hd x \<noteq> 0x20)"
  using assms
proof (induction x arbitrary: inRun)
  case Nil
  show ?case by (simp add: two_spaces)
next
  case (Cons c cs)
  have sp: "isSpace 0x20"
    by (simp add: isSpace_def)
  from Cons.prems have rest: "\<forall>c \<in> set cs. isSpace c \<longrightarrow> c = 0x20"
    by simp
  note ih = Cons.IH [OF rest]
  show ?case
  proof (cases "c = 0x20")
    case True
    show ?thesis
    proof (cases inRun)
      case True
      have "collapseFrom True (c # cs) = collapseFrom True cs"
        using sp \<open>c = 0x20\<close> by simp
      with collapseFrom_True_differs [of cs c] True \<open>c = 0x20\<close> show ?thesis
        by simp
    next
      case False
      have "collapseFrom False (c # cs) = c # collapseFrom True cs"
        using sp \<open>c = 0x20\<close> by simp
      then have "collapseFrom False (c # cs) = c # cs \<longleftrightarrow> collapseFrom True cs = cs"
        by simp
      also have "\<dots> \<longleftrightarrow> \<not> str_includes cs (lit ''  '') \<and> (cs = [] \<or> hd cs \<noteq> 0x20)"
        using ih [of True] by simp
      also have "\<dots> \<longleftrightarrow> \<not> str_includes (c # cs) (lit ''  '')"
        unfolding double_space_Cons [of c cs] using \<open>c = 0x20\<close> by blast
      finally show ?thesis
        using False by simp
    qed
  next
    case False
    with Cons.prems have ns: "\<not> isSpace c"
      by auto
    have "collapseFrom inRun (c # cs) = c # collapseFrom False cs"
      using ns by simp
    then have "collapseFrom inRun (c # cs) = c # cs \<longleftrightarrow> collapseFrom False cs = cs"
      by simp
    also have "\<dots> \<longleftrightarrow> \<not> str_includes cs (lit ''  '')"
      using ih [of False] by simp
    also have "\<dots> \<longleftrightarrow> \<not> str_includes (c # cs) (lit ''  '')"
      unfolding double_space_Cons [of c cs] using False by blast
    finally show ?thesis
      using False by simp
  qed
qed

lemma occurs_includes: "occurs False pat x \<longleftrightarrow> str_includes x pat"
  by (induction x) simp_all

lemma replaceAll_no_match:
  "\<not> occurs ci (p # ps) x \<Longrightarrow> replaceAll ci (p # ps) rep x = x"
proof (induction x)
  case Nil
  show ?case by simp
next
  case (Cons c cs)
  from Cons.prems have a: "\<not> startsWith ci (p # ps) (c # cs)" and b: "\<not> occurs ci (p # ps) cs"
    by (simp_all del: startsWith.simps)
  from a Cons.IH [OF b] show ?case
    by (simp del: startsWith.simps)
qed

lemma length_replaceAll:
  "length rep \<le> length pat \<Longrightarrow> length (replaceAll ci pat rep x) \<le> length x"
proof (induction ci pat rep x rule: replaceAll.induct)
  case (1 ci rep s)
  show ?case by simp
next
  case (2 ci p ps rep)
  show ?case by simp
next
  case (3 ci p ps rep c cs)
  show ?case
  proof (cases "startsWith ci (p # ps) (c # cs)")
    case True
    then have "length ps \<le> length cs"
      using startsWith_length [of ci "p # ps" "c # cs"] by simp
    moreover have "replaceAll ci (p # ps) rep (c # cs)
        = rep @ replaceAll ci (p # ps) rep (drop (length ps) cs)"
      using True by (simp del: startsWith.simps)
    ultimately show ?thesis
      using 3(1) [OF True 3(3)] 3(3) by simp
  next
    case False
    then have "replaceAll ci (p # ps) rep (c # cs) = c # replaceAll ci (p # ps) rep cs"
      by (simp del: startsWith.simps)
    with 3(2) [OF False 3(3)] show ?thesis by simp
  qed
qed

lemma replaceAll_shorter:
  "length rep < length (p # ps) \<Longrightarrow> occurs ci (p # ps) x \<Longrightarrow>
     length (replaceAll ci (p # ps) rep x) < length x"
proof (induction x)
  case Nil
  then show ?case by simp
next
  case (Cons c cs)
  show ?case
  proof (cases "startsWith ci (p # ps) (c # cs)")
    case True
    then have "length ps \<le> length cs"
      using startsWith_length [of ci "p # ps" "c # cs"] by simp
    moreover have "replaceAll ci (p # ps) rep (c # cs)
        = rep @ replaceAll ci (p # ps) rep (drop (length ps) cs)"
      using True by (simp del: startsWith.simps)
    moreover have "length (replaceAll ci (p # ps) rep (drop (length ps) cs))
        \<le> length (drop (length ps) cs)"
      using Cons.prems(1) by (intro length_replaceAll) simp
    ultimately show ?thesis
      using Cons.prems(1) by simp
  next
    case False
    with Cons.prems(2) have "occurs ci (p # ps) cs"
      by (simp del: startsWith.simps)
    from Cons.IH [OF Cons.prems(1) this] False show ?thesis
      by (simp del: startsWith.simps)
  qed
qed

lemma length_escapeSteps:
  "\<forall>(ci, pat, rep) \<in> set rules. length rep \<le> length pat \<Longrightarrow>
     length (fold escapeStep rules x) \<le> length x"
proof (induction rules arbitrary: x)
  case Nil
  show ?case by simp
next
  case (Cons r rs)
  obtain ci pat rep where r: "r = (ci, pat, rep)"
    by (cases r) auto
  from Cons.prems r have "length rep \<le> length pat"
    by simp
  then have "length (escapeStep r x) \<le> length x"
    unfolding r escapeStep_def by (simp add: length_replaceAll)
  moreover from Cons.prems have "length (fold escapeStep rs (escapeStep r x)) \<le> length (escapeStep r x)"
    by (intro Cons.IH) simp
  ultimately show ?case by simp
qed

lemma escapeSteps_fixed:
  assumes "\<forall>(ci, pat, rep) \<in> set rules. pat \<noteq> [] \<and> length rep < length pat"
  shows "fold escapeStep rules x = x \<longleftrightarrow> (\<forall>(ci, pat, rep) \<in> set rules. \<not> occurs ci pat x)"
  using assms
proof (induction rules)
  case Nil
  show ?case by simp
next
  case (Cons r rs)
  obtain ci pat rep where r: "r = (ci, pat, rep)"
    by (cases r) auto
  from Cons.prems r obtain p ps where pat: "pat = p # ps" and short: "length rep < length (p # ps)"
    by (cases pat) auto
  from Cons.prems have rest: "\<forall>(ci, pat, rep) \<in> set rs. pat \<noteq> [] \<and> length rep < length pat"
    by simp
  then have le: "length (fold escapeStep rs y) \<le> length y" for y
    by (intro length_escapeSteps) auto
  have step: "escapeStep r x = replaceAll ci (p # ps) rep x"
    by (simp add: r pat escapeStep_def)
  show ?case
  proof (cases "occurs ci (p # ps) x")
    case True
    with short have "length (escapeStep r x) < length x"
      unfolding step by (rule replaceAll_shorter)
    with le [of "escapeStep r x"] have "fold escapeStep (r # rs) x \<noteq> x"
      by auto
    with True show ?thesis
      by (auto simp: r pat)
  next
    case False
    then have "escapeStep r x = x"
      unfolding step by (rule replaceAll_no_match)
    with False Cons.IH [OF rest] show ?thesis
      by (simp add: r pat)
  qed
qed

lemma concat_fixed: "\<forall>d \<in> set z. low d = [d] \<Longrightarrow> concat (map low z) = z"
  by (induction z) simp_all

lemma stable_normalizeWith:
  assumes "lowering low" and "d \<in> set (normalizeWith low s)"
  shows "tidy d \<and> low d = [d]"
proof -
  from assms(2) obtain c where c: "c \<in> set (unlowered s)" and d: "d \<in> set (low c)"
    by (auto simp: normalizeWith_def)
  from c tidy_unlowered [of s] have "tidy c"
    by (simp add: list_all_iff)
  with d assms(1) show ?thesis
    unfolding lowering_def by blast
qed

lemma tidy_space: "tidy 0x20"
  by (simp add: tidy_def)

lemma all_escapeSteps:
  "\<forall>(ci, pat, rep) \<in> set rules. list_all Q rep \<Longrightarrow> list_all Q x \<Longrightarrow>
     list_all Q (fold escapeStep rules x)"
proof (induction rules arbitrary: x)
  case Nil
  then show ?case by simp
next
  case (Cons r rs)
  obtain ci pat rep where r: "r = (ci, pat, rep)"
    by (cases r) auto
  from Cons.prems r have "list_all Q rep"
    by simp
  with Cons.prems(2) have "list_all Q (escapeStep r x)"
    unfolding r escapeStep_def by (simp add: all_replaceAll)
  moreover from Cons.prems(1) have "\<forall>(ci, pat, rep) \<in> set rs. list_all Q rep"
    by simp
  ultimately have "list_all Q (fold escapeStep rs (escapeStep r x))"
    by (intro Cons.IH)
  then show ?case by simp
qed

lemma unlowered_of_tidy:
  assumes tidy_t: "list_all tidy t"
  shows "unlowered t = fold escapeStep escapeRules (collapseSpaces (trim t))"
proof -
  let ?u0 = "collapseSpaces (trim t)"
  let ?u1 = "replaceAll False (backslash # lit ''times'') (lit ''x'') ?u0"
  let ?u2 = "replaceAll False (backslash # lit ''to'') (lit ''->'') ?u1"
  from tidy_t have "list_all (\<lambda>c. isSpace c \<or> tidy c) t"
    by (simp add: list_all_iff)
  then have "list_all tidy ?u0"
    by (intro all_collapseSpaces all_trim tidy_space)
  then have t0: "\<forall>c \<in> set ?u0. tidy c"
    by (simp add: list_all_iff)
  have "list_all tidy (lit ''x'')"
    by (simp add: lit_def tidy_def isSpace_def)
  from this \<open>list_all tidy ?u0\<close> have "list_all tidy ?u1"
    by (rule all_replaceAll)
  then have t1: "\<forall>c \<in> set ?u1. tidy c"
    by (simp add: list_all_iff)
  have "list_all tidy (lit ''->'')"
    by (simp add: lit_def tidy_def isSpace_def)
  from this \<open>list_all tidy ?u1\<close> have "list_all tidy ?u2"
    by (rule all_replaceAll)
  then have t2: "\<forall>c \<in> set ?u2. tidy c"
    by (simp add: list_all_iff)
  have c3: "replaceClass (\<lambda>c. (0x2000 \<le> c \<and> c \<le> 0x200F) \<or> (0x2028 \<le> c \<and> c \<le> 0x202F)) [0x20] ?u0 = ?u0"
    using t0 by (intro replaceClass_absent) (simp add: tidy_def)
  have c4: "replaceClass (\<lambda>c. c = 0xA0) [0x20] ?u0 = ?u0"
    using t0 by (intro replaceClass_absent) (simp add: tidy_def)
  have c7: "replaceClass (\<lambda>c. c = 0xD7) (lit ''x'') ?u0 = ?u0"
    using t0 by (intro replaceClass_absent) (simp add: tidy_def)
  have c9: "replaceClass (\<lambda>c. c = 0x2192 \<or> c = 0x21A6) (lit ''->'') ?u1 = ?u1"
    using t1 by (intro replaceClass_absent) (simp add: tidy_def)
  have c11: "replaceClass (\<lambda>c. c = 0x2212) (lit ''-'') ?u2 = ?u2"
    using t2 by (intro replaceClass_absent) (simp add: tidy_def)
  have dollar: "\<forall>c \<in> set ?u2. \<not> sameUnit False 0x24 c"
    using t2 by (auto simp: tidy_def sameUnit_def)
  have "replaceAll False (0x24 # [0x24]) [] ?u2 = ?u2"
    using dollar by (rule replaceAll_absent)
  moreover have "lit ''$$'' = 0x24 # [0x24]"
    by (simp add: lit_def)
  ultimately have d12: "replaceAll False (lit ''$$'') [] ?u2 = ?u2"
    by simp
  have "replaceAll False (0x24 # []) [] ?u2 = ?u2"
    using dollar by (rule replaceAll_absent)
  moreover have "lit ''$'' = 0x24 # []"
    by (simp add: lit_def)
  ultimately have d13: "replaceAll False (lit ''$'') [] ?u2 = ?u2"
    by simp
  show ?thesis
    by (simp only: unlowered_def Let_def c3 c4 replaceClass_self c7 c9 c11 d12 d13
        escapeRules_def fold_simps o_apply escapeStep_def prod.case)
qed

lemma written_replacements: "\<forall>(ci, pat, rep) \<in> set escapeRules. set rep \<subseteq> set written"
  by (simp add: escapeRules_def written_def lit_def)

lemma shorter_replacements:
  "\<forall>(ci, pat, rep) \<in> set escapeRules. pat \<noteq> [] \<and> length rep < length pat"
  by (simp add: escapeRules_def lit_def)

lemma unlowered_fixed:
  assumes low: "lowering low"
    and t: "\<forall>d \<in> set t. tidy d \<and> low d = [d]"
  shows "concat (map low (unlowered t)) = unlowered t"
proof -
  let ?Q = "\<lambda>d. low d = [d]"
  from low have w: "\<forall>c \<in> set written. low c = [c]"
    unfolding lowering_def by blast
  then have "?Q 0x20"
    by (simp add: written_def)
  moreover from t have "list_all (\<lambda>c. isSpace c \<or> ?Q c) t"
    by (simp add: list_all_iff)
  ultimately have "list_all ?Q (collapseSpaces (trim t))"
    by (intro all_collapseSpaces all_trim)
  moreover have "\<forall>(ci, pat, rep) \<in> set escapeRules. list_all ?Q rep"
  proof (intro ballI, clarify)
    fix ci pat rep
    assume "(ci, pat, rep) \<in> set escapeRules"
    with written_replacements have "set rep \<subseteq> set written"
      by blast
    with w show "list_all ?Q rep"
      unfolding list_all_iff by blast
  qed
  ultimately have "list_all ?Q (fold escapeStep escapeRules (collapseSpaces (trim t)))"
    by (intro all_escapeSteps)
  moreover from t have "list_all tidy t"
    by (simp add: list_all_iff)
  ultimately have "list_all ?Q (unlowered t)"
    by (simp add: unlowered_of_tidy)
  then show ?thesis
    by (intro concat_fixed) (simp add: list_all_iff)
qed

lemma sameUnit_plain:
  assumes "p < 0x80" and "\<not> (0x41 \<le> p \<and> p \<le> 0x5A)" and "\<not> (0x41 \<le> c \<and> c \<le> 0x5A)"
  shows "sameUnit True p c \<longleftrightarrow> p = c"
proof -
  have p: "canonicalize p = (if 0x61 \<le> p \<and> p \<le> 0x7A then p - 0x20 else p)"
    using assms(1) by (simp add: canonicalize_def)
  show ?thesis
    unfolding sameUnit_def p canonicalize_def using assms
    by (simp split: if_splits) linarith+
qed

lemma startsWith_plain:
  assumes "\<forall>p \<in> set pat. p < 0x80 \<and> \<not> (0x41 \<le> p \<and> p \<le> 0x5A)"
    and "\<forall>c \<in> set u. \<not> (0x41 \<le> c \<and> c \<le> 0x5A)"
  shows "startsWith True pat u = startsWith False pat u"
  using assms
proof (induction True pat u rule: startsWith.induct)
  case (1 s)
  show ?case by simp
next
  case (2 p ps)
  show ?case by simp
next
  case (3 p ps c cs)
  from 3(2,3) have "sameUnit True p c \<longleftrightarrow> p = c"
    by (intro sameUnit_plain) simp_all
  moreover have "sameUnit False p c \<longleftrightarrow> p = c"
    by (simp add: sameUnit_def)
  moreover from 3 have "startsWith True ps cs = startsWith False ps cs"
    by simp
  ultimately show ?case by simp
qed

lemma occurs_plain:
  assumes "\<forall>p \<in> set pat. p < 0x80 \<and> \<not> (0x41 \<le> p \<and> p \<le> 0x5A)"
    and "\<forall>c \<in> set u. \<not> (0x41 \<le> c \<and> c \<le> 0x5A)"
  shows "occurs True pat u = str_includes u pat"
  using assms(2)
proof (induction u)
  case Nil
  show ?case by simp
next
  case (Cons c cs)
  from Cons.prems have "startsWith True pat (c # cs) = startsWith False pat (c # cs)"
    by (intro startsWith_plain assms(1))
  moreover from Cons have "occurs True pat cs = str_includes cs pat"
    by simp
  ultimately show ?case by simp
qed

lemma escapes_occur:
  assumes "\<forall>c \<in> set t. \<not> (0x41 \<le> c \<and> c \<le> 0x5A)"
  shows "(\<forall>(ci, pat, rep) \<in> set escapeRules. \<not> occurs ci pat t)
     \<longleftrightarrow> list_all (\<lambda>pat. \<not> str_includes t pat) escapePatterns"
proof -
  have "\<forall>p \<in> set (backslash # lit ''mathbb{n}_0''). p < 0x80 \<and> \<not> (0x41 \<le> p \<and> p \<le> 0x5A)"
    by (simp add: backslash_def lit_def)
  from occurs_plain [OF this assms] show ?thesis
    by (simp add: escapeRules_def escapePatterns_def occurs_includes)
qed

lemma settling_fixed:
  assumes tidy_t: "\<forall>c \<in> set t. tidy c"
    and plain: "\<forall>c \<in> set t. \<not> (0x41 \<le> c \<and> c \<le> 0x5A)"
  shows "fold escapeStep escapeRules (collapseSpaces (trim t)) = t \<longleftrightarrow> settled t"
proof
  let ?F = "fold escapeStep escapeRules"
  from tidy_t have spaces: "\<forall>c \<in> set t. isSpace c \<longrightarrow> c = 0x20"
    by (simp add: tidy_def)
  have le: "length (?F y) \<le> length y" for y
    using shorter_replacements by (intro length_escapeSteps) auto
  {
    assume eq: "?F (collapseSpaces (trim t)) = t"
    have "length t \<le> length (collapseSpaces (trim t))"
      using le [of "collapseSpaces (trim t)"] by (simp add: eq)
    moreover have "length (collapseSpaces (trim t)) \<le> length (trim t)"
      unfolding collapseSpaces_def by (rule length_collapseFrom)
    moreover note length_trim [of t]
    ultimately have a: "length (trim t) = length t"
      and b: "length (collapseSpaces (trim t)) = length (trim t)"
      by linarith+
    from a have trimmed: "trim t = t"
      by (rule trim_same_length)
    from b have "length (collapseFrom False t) = length t"
      by (simp add: trimmed collapseSpaces_def)
    with spaces have collapsed: "collapseFrom False t = t"
      by (rule collapseFrom_same_length)
    from eq have "?F t = t"
      by (simp add: trimmed collapseSpaces_def collapsed)
    then have "\<forall>(ci, pat, rep) \<in> set escapeRules. \<not> occurs ci pat t"
      using escapeSteps_fixed [OF shorter_replacements, of t] by simp
    then have "list_all (\<lambda>pat. \<not> str_includes t pat) escapePatterns"
      using escapes_occur [OF plain] by simp
    moreover from edgesClean_trim [of t] have "edgesClean t"
      by (simp add: trimmed)
    moreover from collapsed have "\<not> str_includes t (lit ''  '')"
      using collapseFrom_fixed [OF spaces, of False] by simp
    ultimately show "settled t"
      by (simp add: settled_def)
  }
  {
    assume s: "settled t"
    then have trimmed: "trim t = t"
      by (intro trim_edgesClean) (simp add: settled_def)
    from s have collapsed: "collapseFrom False t = t"
      using collapseFrom_fixed [OF spaces, of False] by (simp add: settled_def)
    from s have "\<forall>(ci, pat, rep) \<in> set escapeRules. \<not> occurs ci pat t"
      using escapes_occur [OF plain] by (simp add: settled_def)
    then have "?F t = t"
      using escapeSteps_fixed [OF shorter_replacements, of t] by simp
    then show "?F (collapseSpaces (trim t)) = t"
      by (simp add: trimmed collapseSpaces_def collapsed)
  }
qed

lemma normalizeWith_twice:
  assumes low: "lowering low"
  shows "normalizeWith low (normalizeWith low s) = normalizeWith low s
     \<longleftrightarrow> settled (normalizeWith low s)"
proof -
  let ?t = "normalizeWith low s"
  have stable: "\<forall>d \<in> set ?t. tidy d \<and> low d = [d]"
    using stable_normalizeWith [OF low] by blast
  then have tidy_t: "\<forall>c \<in> set ?t. tidy c"
    by blast
  from low have "\<forall>c. 0x41 \<le> c \<and> c \<le> 0x5A \<longrightarrow> low c \<noteq> [c]"
    unfolding lowering_def by blast
  with stable have plain: "\<forall>c \<in> set ?t. \<not> (0x41 \<le> c \<and> c \<le> 0x5A)"
    by blast
  have "normalizeWith low ?t = unlowered ?t"
    unfolding normalizeWith_def [of low ?t] using low stable by (rule unlowered_fixed)
  also have "\<dots> = fold escapeStep escapeRules (collapseSpaces (trim ?t))"
    using tidy_t by (intro unlowered_of_tidy) (simp add: list_all_iff)
  finally show ?thesis
    using settling_fixed [OF tidy_t plain] by simp
qed

text \<open>
  C3, as the code has it. Normalizing the output of \<^verbatim>\<open>normalizeText\<close> again gives the same
  string exactly when that output is settled: it has no white space at either end, no two
  spaces in a row, and none of the escapes \<^verbatim>\<open>\times\<close>, \<^verbatim>\<open>\to\<close>, \<^verbatim>\<open>\subseteq\<close>,
  \<^verbatim>\<open>\mathbb{n}_0\<close>, \<^verbatim>\<open>\in\<close>, \<^verbatim>\<open>\emptyset\<close>, \<^verbatim>\<open>^2\<close>, \<^verbatim>\<open>^n\<close>. This holds of every input,
  whatever it contains.
\<close>

theorem normalizeText_twice_iff_settled:
  "normalizeText (normalizeText s) = normalizeText s \<longleftrightarrow> settled (normalizeText s)"
  unfolding normalizeText_normalizeWith using lowering_lowerUnit by (rule normalizeWith_twice)

text \<open>
  Two strings with escapes in lower case, \<^verbatim>\<open>L \times L\<close> and \<^verbatim>\<open>f: A \to B\<close>: the first pass
  replaces the escapes, its output is settled, and the second pass changes nothing.
\<close>

theorem normalizeText_twice_iff_settled_witness:
  "normalizeText (normalizeText (lit ''L '' @ backslash # lit ''times L''))
     = normalizeText (lit ''L '' @ backslash # lit ''times L'')
   \<and> normalizeText (lit ''L '' @ backslash # lit ''times L'') = lit ''l x l''
   \<and> normalizeText (normalizeText (lit ''f: A '' @ backslash # lit ''to B''))
     = normalizeText (lit ''f: A '' @ backslash # lit ''to B'')
   \<and> normalizeText (lit ''f: A '' @ backslash # lit ''to B'') = lit ''f: a -> b''"
proof -
  have a: "normalizeText (lit ''L '' @ backslash # lit ''times L'') = lit ''l x l''"
    by (simp add: string_defs normalizeText_def)
  have b: "normalizeText (lit ''f: A '' @ backslash # lit ''to B'') = lit ''f: a -> b''"
    by (simp add: string_defs normalizeText_def)
  have sa: "settled (lit ''l x l'')"
    by (simp add: settled_def edgesClean_def escapePatterns_def escapeRules_def string_defs)
  have sb: "settled (lit ''f: a -> b'')"
    by (simp add: settled_def edgesClean_def escapePatterns_def escapeRules_def string_defs)
  from sa have a2: "normalizeText (normalizeText (lit ''L '' @ backslash # lit ''times L''))
      = normalizeText (lit ''L '' @ backslash # lit ''times L'')"
    using normalizeText_twice_iff_settled [of "lit ''L '' @ backslash # lit ''times L''"]
    unfolding a by (rule iffD2 [rotated])
  from sb have b2: "normalizeText (normalizeText (lit ''f: A '' @ backslash # lit ''to B''))
      = normalizeText (lit ''f: A '' @ backslash # lit ''to B'')"
    using normalizeText_twice_iff_settled [of "lit ''f: A '' @ backslash # lit ''to B''"]
    unfolding b by (rule iffD2 [rotated])
  from a2 a b2 b show ?thesis
    by (intro conjI)
qed

text \<open>
  Normalization is not idempotent on every string, and each part of being settled is
  needed. The lower case comes last, so an escape written in capitals is lowered by the
  first pass and replaced only by the second. The dollar signs are removed after the white
  space has been collapsed, so the spaces on both sides of one meet in the output and are
  collapsed by the second pass. A zero-width space (U+200B) is not white space for
  \<^verbatim>\<open>trim\<close>, and becomes a space after \<^verbatim>\<open>trim\<close> has run, so at the start of a string it
  leaves a space that the second pass trims.
\<close>

theorem normalizeText_twice_counterexample:
  "normalizeText (backslash # lit ''TO'') = backslash # lit ''to''
   \<and> normalizeText (normalizeText (backslash # lit ''TO'')) = lit ''->''
   \<and> normalizeText (normalizeText (backslash # lit ''TO'')) \<noteq> normalizeText (backslash # lit ''TO'')
   \<and> normalizeText (lit ''a $ b'') = lit ''a  b''
   \<and> normalizeText (normalizeText (lit ''a $ b'')) = lit ''a b''
   \<and> normalizeText (normalizeText (lit ''a $ b'')) \<noteq> normalizeText (lit ''a $ b'')
   \<and> normalizeText (0x200B # lit ''a'') = lit '' a''
   \<and> normalizeText (normalizeText (0x200B # lit ''a'')) = lit ''a''
   \<and> normalizeText (normalizeText (0x200B # lit ''a'')) \<noteq> normalizeText (0x200B # lit ''a'')"
proof -
  have a1: "normalizeText (backslash # lit ''TO'') = backslash # lit ''to''"
    by (simp add: string_defs normalizeText_def)
  have a2: "normalizeText (backslash # lit ''to'') = lit ''->''"
    by (simp add: string_defs normalizeText_def)
  have b1: "normalizeText (lit ''a $ b'') = lit ''a  b''"
    by (simp add: string_defs normalizeText_def)
  have b2: "normalizeText (lit ''a  b'') = lit ''a b''"
    by (simp add: string_defs normalizeText_def)
  have c1: "normalizeText (0x200B # lit ''a'') = lit '' a''"
    by (simp add: string_defs normalizeText_def)
  have c2: "normalizeText (lit '' a'') = lit ''a''"
    by (simp add: string_defs normalizeText_def)
  show ?thesis
    unfolding a1 a2 b1 b2 c1 c2 by (simp add: lit_def backslash_def)
qed

end
